theory Spec2Isabelle
  imports Main "HOL-Library.Word" "HOL-Library.Monad_Syntax"
begin

section \<open>Machine model\<close>

text \<open>
  The library is a single C header, \<^verbatim>\<open>src/include/cstr.h\<close>, written for Windows.
  Its functions work on \<^verbatim>\<open>CString\<close> structs through pointers and on blocks obtained
  from \<^verbatim>\<open>malloc\<close>/\<^verbatim>\<open>realloc\<close>.  The embedding keeps both in an explicit store:

  \<^item> \<^verbatim>\<open>size_t\<close> is a 64-bit word (x64 Windows), so \<^verbatim>\<open>length - 1\<close> wraps as in C;
  \<^item> a \<^verbatim>\<open>char\<close> is a HOL \<^typ>\<open>char\<close> (one byte), the terminator is \<^term>\<open>CHR 0x00\<close>;
  \<^item> a pointer is a natural number, \<open>0\<close> being \<^verbatim>\<open>NULL\<close>;
  \<^item> a heap block is a list of cells; a cell is \<^term>\<open>None\<close> while its byte is
    indeterminate (fresh from \<^verbatim>\<open>malloc\<close>, or the grown tail after \<^verbatim>\<open>realloc\<close>);
  \<^item> undefined behaviour (a read or write outside a live block, reading an
    indeterminate byte as a value, using a struct whose fields were never written)
    is the result \<^term>\<open>None\<close> of the function; a returned \<^term>\<open>Some\<close> carries the C return
    value and the new store;
  \<^item> \<^verbatim>\<open>const char*\<close> arguments supplied by the caller are modelled by the characters
    they point to (\<^term>\<open>None\<close> for a \<^verbatim>\<open>NULL\<close> argument); the terminator is implicit.
\<close>

type_synonym size_t = "64 word"
type_synonym ptr = nat
type_synonym cell = "char option"

abbreviation NULL :: ptr where
  "NULL \<equiv> 0"

abbreviation NUL :: char where
  "NUL \<equiv> CHR 0x00"

text \<open>\<^verbatim>\<open>static const size_t invalid = (size_t)-1;\<close>\<close>

definition invalid :: size_t where
  "invalid = - 1"

text \<open>The struct, without its \<^verbatim>\<open>CRITICAL_SECTION\<close>: the lock is identified by the
  address of the struct that embeds it, and its use is recorded in \<open>cs_log\<close>.  The log
  also records the assignments to the fields of a struct (\<open>Assign\<close>), so that it shows
  which of them are made inside which critical sections.\<close>

record CString =
  data :: ptr
  length_f :: size_t
  capacity :: size_t

datatype cs_event = Initialize ptr | Enter ptr | Leave ptr | Delete ptr | Assign ptr

record world =
  objs :: "ptr \<rightharpoonup> CString"
  heap :: "ptr \<rightharpoonup> cell list"
  brk :: ptr
  alloc_plan :: "bool list"
  cs_log :: "cs_event list"

subsection \<open>The C runtime\<close>

text \<open>
  \<^verbatim>\<open>malloc\<close> may fail.  \<open>alloc_plan\<close> lists the outcomes of the coming allocation
  requests, \<^term>\<open>False\<close> for a failing one; once the plan is used up every request
  succeeds.  A successful request returns the fresh address \<open>brk\<close>; addresses are
  never reused, so a stale pointer never hits a live block.
\<close>

definition malloc :: "size_t \<Rightarrow> world \<Rightarrow> ptr \<times> world" where
  "malloc n w =
     (case alloc_plan w of
        False # plan \<Rightarrow> (NULL, w\<lparr>alloc_plan := plan\<rparr>)
      | _ \<Rightarrow> (brk w, w\<lparr>heap := (heap w)(brk w \<mapsto> replicate (unat n) None),
                        brk := Suc (brk w), alloc_plan := tl (alloc_plan w)\<rparr>))"

definition free :: "ptr \<Rightarrow> world \<Rightarrow> world option" where
  "free p w =
     (if p = NULL then Some w
      else case heap w p of
        None \<Rightarrow> None
      | Some blk \<Rightarrow> Some (w\<lparr>heap := (heap w)(p := None)\<rparr>))"

text \<open>
  \<^verbatim>\<open>realloc\<close> of the Microsoft C runtime: a null block is a \<^verbatim>\<open>malloc\<close>; size zero frees
  the block and returns \<^verbatim>\<open>NULL\<close>; on failure the old block is left alone; on success
  the common prefix is kept and the model always moves the block.
\<close>

definition realloc :: "ptr \<Rightarrow> size_t \<Rightarrow> world \<Rightarrow> (ptr \<times> world) option" where
  "realloc p n w =
     (if p = NULL then Some (malloc n w)
      else case heap w p of
        None \<Rightarrow> None
      | Some blk \<Rightarrow>
          if n = 0 then Some (NULL, w\<lparr>heap := (heap w)(p := None)\<rparr>)
          else (case malloc n w of
                  (q, w1) \<Rightarrow>
                    if q = NULL then Some (NULL, w1)
                    else Some (q, w1\<lparr>heap := (heap w1)
                           (q \<mapsto> take (unat n) blk @ replicate (unat n - length blk) None,
                            p := None)\<rparr>)))"

text \<open>Reading and writing \<open>n\<close> cells at offset \<open>off\<close> of the block at \<open>p\<close>.\<close>

definition load_cells :: "ptr \<Rightarrow> nat \<Rightarrow> nat \<Rightarrow> world \<Rightarrow> cell list option" where
  "load_cells p off n w =
     (if p = NULL then None
      else case heap w p of
        None \<Rightarrow> None
      | Some blk \<Rightarrow> if off + n \<le> length blk then Some (take n (drop off blk)) else None)"

definition store_cells :: "ptr \<Rightarrow> nat \<Rightarrow> cell list \<Rightarrow> world \<Rightarrow> world option" where
  "store_cells p off cs w =
     (if p = NULL then None
      else case heap w p of
        None \<Rightarrow> None
      | Some blk \<Rightarrow>
          if off + length cs \<le> length blk
          then Some (w\<lparr>heap := (heap w)(p \<mapsto> take off blk @ cs @ drop (off + length cs) blk)\<rparr>)
          else None)"

text \<open>\<^verbatim>\<open>p[i]\<close> as a value, and \<^verbatim>\<open>p[i] = c\<close>.\<close>

definition load :: "ptr \<Rightarrow> nat \<Rightarrow> world \<Rightarrow> char option" where
  "load p i w = do { cs \<leftarrow> load_cells p i 1 w; hd cs }"

definition store :: "ptr \<Rightarrow> nat \<Rightarrow> char \<Rightarrow> world \<Rightarrow> world option" where
  "store p i c w = store_cells p i [Some c] w"

text \<open>\<^verbatim>\<open>memmove(dst + doff, src + soff, n)\<close>; \<^verbatim>\<open>memcpy\<close> is the same except that
  overlapping ranges are undefined.\<close>

definition memmove :: "ptr \<Rightarrow> nat \<Rightarrow> ptr \<Rightarrow> nat \<Rightarrow> size_t \<Rightarrow> world \<Rightarrow> world option" where
  "memmove dst doff src soff n w =
     do { cs \<leftarrow> load_cells src soff (unat n) w; store_cells dst doff cs w }"

definition memcpy :: "ptr \<Rightarrow> nat \<Rightarrow> ptr \<Rightarrow> nat \<Rightarrow> size_t \<Rightarrow> world \<Rightarrow> world option" where
  "memcpy dst doff src soff n w =
     (if dst = src \<and> doff < soff + unat n \<and> soff < doff + unat n then None
      else memmove dst doff src soff n w)"

definition SecureZeroMemory :: "ptr \<Rightarrow> size_t \<Rightarrow> world \<Rightarrow> world option" where
  "SecureZeroMemory p n w = store_cells p 0 (replicate (unat n) (Some NUL)) w"

text \<open>The characters of a C string held in a caller's array: those before the first
  zero byte.\<close>

definition c_chars :: "string \<Rightarrow> string" where
  "c_chars s = takeWhile (\<lambda>c. c \<noteq> NUL) s"

text \<open>The C string that starts at the block \<open>p\<close>: scanning stops at the first zero
  byte; running off the block or over an indeterminate byte is undefined.\<close>

fun scan_str :: "cell list \<Rightarrow> string option" where
  "scan_str [] = None"
| "scan_str (None # cs) = None"
| "scan_str (Some c # cs) = (if c = NUL then Some [] else map_option ((#) c) (scan_str cs))"

definition c_str :: "ptr \<Rightarrow> world \<Rightarrow> string option" where
  "c_str p w = (if p = NULL then None else do { blk \<leftarrow> heap w p; scan_str blk })"

definition strlen :: "string \<Rightarrow> size_t" where
  "strlen s = of_nat (length (c_chars s))"

text \<open>\<^verbatim>\<open>strchr(s, c) != NULL\<close>: the terminator is part of the string, so a zero byte is
  always found.\<close>

definition strchr :: "string \<Rightarrow> char \<Rightarrow> bool" where
  "strchr s c = (c = NUL \<or> c \<in> set (c_chars s))"

text \<open>\<^verbatim>\<open>isspace\<close> in the "C" locale: space, tab, line feed, vertical tab, form feed,
  carriage return.\<close>

definition isspace :: "char \<Rightarrow> bool" where
  "isspace c = (c \<in> {CHR 0x20, CHR 0x09, CHR 0x0A, CHR 0x0B, CHR 0x0C, CHR 0x0D})"

subsection \<open>Locks\<close>

definition InitializeCriticalSection :: "ptr \<Rightarrow> world \<Rightarrow> world" where
  "InitializeCriticalSection obj w = w\<lparr>cs_log := cs_log w @ [Initialize obj]\<rparr>"

definition DeleteCriticalSection :: "ptr \<Rightarrow> world \<Rightarrow> world" where
  "DeleteCriticalSection obj w = w\<lparr>cs_log := cs_log w @ [Delete obj]\<rparr>"

definition cstr_lock :: "ptr \<Rightarrow> world \<Rightarrow> world" where
  "cstr_lock obj w = (if obj \<noteq> NULL then w\<lparr>cs_log := cs_log w @ [Enter obj]\<rparr> else w)"

definition cstr_unlock :: "ptr \<Rightarrow> world \<Rightarrow> world" where
  "cstr_unlock obj w = (if obj \<noteq> NULL then w\<lparr>cs_log := cs_log w @ [Leave obj]\<rparr> else w)"

text \<open>Assigning to fields of the struct at \<open>obj\<close>: \<open>ob\<close> is the struct after the
  assignment.  Assignments to several fields of one struct that follow each other
  directly in the source are made by one \<open>put\<close> and logged once.\<close>

definition put :: "ptr \<Rightarrow> CString \<Rightarrow> world \<Rightarrow> world" where
  "put obj ob w = w\<lparr>objs := (objs w)(obj \<mapsto> ob), cs_log := cs_log w @ [Assign obj]\<rparr>"

section \<open>Construction and destruction\<close>

definition cstr_strdup :: "string \<Rightarrow> world \<Rightarrow> (ptr \<times> world) option" where
  "cstr_strdup str w =
     (let len = strlen str + 1;
          (buf, w) = malloc len w
      in if buf \<noteq> NULL
         then do { w \<leftarrow> store_cells buf 0 (take (unat len) (map Some (c_chars str @ [NUL]))) w;
                   Some (buf, w) }
         else Some (buf, w))"

definition cstr_create :: "ptr \<Rightarrow> world \<Rightarrow> (bool \<times> world) option" where
  "cstr_create obj w =
     (if obj = NULL then Some (False, w)
      else case malloc 1 w of
        (data', w) \<Rightarrow>
          if data' = NULL then Some (False, w)
          else do {
            w \<leftarrow> store data' 0 NUL w;
            let w = put obj \<lparr>data = data', length_f = 0, capacity = 1\<rparr> w;
            Some (True, InitializeCriticalSection obj w)
          })"

definition cstr_create_from_cstr :: "ptr \<Rightarrow> ptr \<Rightarrow> world \<Rightarrow> (bool \<times> world) option" where
  "cstr_create_from_cstr obj obj2 w =
     (if obj = NULL \<or> obj2 = NULL then Some (False, w)
      else do {
        ob2 \<leftarrow> objs w obj2;
        str \<leftarrow> c_str (data ob2) w;
        (p, w) \<leftarrow> cstr_strdup str w;
        let w = put obj \<lparr>data = p, length_f = length_f ob2, capacity = capacity ob2\<rparr> w;
        Some (True, InitializeCriticalSection obj w)
      })"

definition cstr_create_from_chars :: "ptr \<Rightarrow> string option \<Rightarrow> world \<Rightarrow> (bool \<times> world) option" where
  "cstr_create_from_chars obj data' w =
     (case data' of
        None \<Rightarrow> Some (False, w)
      | Some str \<Rightarrow>
          if obj = NULL then Some (False, w)
          else do {
            (p, w) \<leftarrow> cstr_strdup str w;
            let w = put obj \<lparr>data = p, length_f = strlen str, capacity = strlen str + 1\<rparr> w;
            Some (True, InitializeCriticalSection obj w)
          })"

text \<open>\<open>buffer\<close> is the caller's byte array; copying more than it holds is undefined.\<close>

definition cstr_create_from_buffer ::
  "ptr \<Rightarrow> char list option \<Rightarrow> size_t \<Rightarrow> world \<Rightarrow> (bool \<times> world) option" where
  "cstr_create_from_buffer obj buffer size' w =
     (case buffer of
        None \<Rightarrow> Some (False, w)
      | Some bytes \<Rightarrow>
          if obj = NULL then Some (False, w)
          else case malloc (size' + 1) w of
            (data', w) \<Rightarrow>
              if data' = NULL then Some (False, w)
              else if length bytes < unat size' then None
              else do {
                w \<leftarrow> store_cells data' 0 (map Some (take (unat size') bytes)) w;
                w \<leftarrow> store data' (unat size') NUL w;
                let w = put obj \<lparr>data = data', length_f = size', capacity = size' + 1\<rparr> w;
                Some (True, InitializeCriticalSection obj w)
              })"

definition cstr_destroy :: "ptr \<Rightarrow> world \<Rightarrow> (bool \<times> world) option" where
  "cstr_destroy obj w =
     (if obj = NULL then Some (False, w)
      else do {
        ob \<leftarrow> objs w obj;
        w \<leftarrow> (if data ob \<noteq> NULL
              then do { w \<leftarrow> SecureZeroMemory (data ob) (capacity ob) w;
                        w \<leftarrow> free (data ob) w;
                        Some (put obj (ob\<lparr>data := NULL\<rparr>) w) }
              else Some w);
        let w = DeleteCriticalSection obj w;
        ob \<leftarrow> objs w obj;
        Some (True, put obj (ob\<lparr>length_f := 0, capacity := 0\<rparr>) w)
      })"

section \<open>Accessors\<close>

text \<open>\<^verbatim>\<open>cstr_at\<close> writes through \<^verbatim>\<open>chr\<close> only for a valid index: the second component
  is the character written, if any.\<close>

definition cstr_at :: "ptr \<Rightarrow> size_t \<Rightarrow> world \<Rightarrow> ((bool \<times> char option) \<times> world) option" where
  "cstr_at obj index w =
     (if obj = NULL then Some ((False, None), w)
      else do {
        let w = cstr_lock obj w;
        ob \<leftarrow> objs w obj;
        if index \<ge> length_f ob then Some ((False, None), cstr_unlock obj w)
        else do {
          c \<leftarrow> load (data ob) (unat index) w;
          Some ((True, Some c), cstr_unlock obj w)
        }
      })"

definition cstr_get :: "ptr \<Rightarrow> size_t \<Rightarrow> world \<Rightarrow> (char \<times> world) option" where
  "cstr_get obj index w =
     (if obj = NULL then Some (NUL, w)
      else do {
        let w = cstr_lock obj w;
        ob \<leftarrow> objs w obj;
        out \<leftarrow> load (data ob) (unat index) w;
        Some (out, cstr_unlock obj w)
      })"

definition cstr_front :: "ptr \<Rightarrow> world \<Rightarrow> (char \<times> world) option" where
  "cstr_front obj w =
     (if obj = NULL then Some (NUL, w)
      else do {
        let w = cstr_lock obj w;
        (out, w) \<leftarrow> cstr_get obj 0 w;
        Some (out, cstr_unlock obj w)
      })"

definition cstr_back :: "ptr \<Rightarrow> world \<Rightarrow> (char \<times> world) option" where
  "cstr_back obj w =
     (if obj = NULL then Some (NUL, w)
      else do {
        let w = cstr_lock obj w;
        ob \<leftarrow> objs w obj;
        (out, w) \<leftarrow> cstr_get obj (length_f ob - 1) w;
        Some (out, cstr_unlock obj w)
      })"

definition cstr_data :: "ptr \<Rightarrow> world \<Rightarrow> (ptr \<times> world) option" where
  "cstr_data obj w =
     (if obj = NULL then Some (NULL, w)
      else do {
        let w = cstr_lock obj w;
        ob \<leftarrow> objs w obj;
        Some (data ob, cstr_unlock obj w)
      })"

definition cstr_length :: "ptr \<Rightarrow> world \<Rightarrow> (size_t \<times> world) option" where
  "cstr_length obj w =
     (if obj = NULL then Some (invalid, w)
      else do {
        let w = cstr_lock obj w;
        ob \<leftarrow> objs w obj;
        Some (length_f ob, cstr_unlock obj w)
      })"

definition cstr_capacity :: "ptr \<Rightarrow> world \<Rightarrow> (size_t \<times> world) option" where
  "cstr_capacity obj w =
     (if obj = NULL then Some (invalid, w)
      else do {
        let w = cstr_lock obj w;
        ob \<leftarrow> objs w obj;
        Some (capacity ob, cstr_unlock obj w)
      })"

definition cstr_empty :: "ptr \<Rightarrow> world \<Rightarrow> (bool \<times> world) option" where
  "cstr_empty obj w =
     (if obj = NULL then Some (False, w)
      else do {
        let w = cstr_lock obj w;
        ob \<leftarrow> objs w obj;
        Some (data ob = NULL \<or> length_f ob = 0, cstr_unlock obj w)
      })"

section \<open>Capacity\<close>

definition cstr_resize :: "ptr \<Rightarrow> size_t \<Rightarrow> world \<Rightarrow> (bool \<times> world) option" where
  "cstr_resize obj size' w =
     (if obj = NULL then Some (False, w)
      else do {
        let w = cstr_lock obj w;
        ob \<leftarrow> objs w obj;
        (new_data, w) \<leftarrow> realloc (data ob) size' w;
        if new_data = NULL then Some (False, cstr_unlock obj w)
        else do {
          let w = put obj (ob\<lparr>data := new_data, capacity := size'\<rparr>) w;
          Some (True, cstr_unlock obj w)
        }
      })"

definition cstr_shrink_to_fit :: "ptr \<Rightarrow> world \<Rightarrow> (bool \<times> world) option" where
  "cstr_shrink_to_fit obj w =
     (if obj = NULL then Some (False, w)
      else do {
        let w = cstr_lock obj w;
        ob \<leftarrow> objs w obj;
        (ok, w) \<leftarrow> cstr_resize obj (length_f ob + 1) w;
        if \<not> ok then Some (False, cstr_unlock obj w)
        else Some (True, cstr_unlock obj w)
      })"

definition cstr_clear :: "ptr \<Rightarrow> world \<Rightarrow> (bool \<times> world) option" where
  "cstr_clear obj w =
     (if obj = NULL then Some (False, w)
      else do {
        let w = cstr_lock obj w;
        ob \<leftarrow> objs w obj;
        w \<leftarrow> SecureZeroMemory (data ob) (capacity ob) w;
        let w = put obj (ob\<lparr>length_f := 0\<rparr>) w;
        Some (True, cstr_unlock obj w)
      })"

section \<open>Growing and shrinking the content\<close>

text \<open>After a successful \<^verbatim>\<open>cstr_resize\<close> the struct is read again: \<^verbatim>\<open>obj->data\<close> has
  changed.\<close>

definition cstr_push_back_char :: "ptr \<Rightarrow> char \<Rightarrow> world \<Rightarrow> (bool \<times> world) option" where
  "cstr_push_back_char obj chr w =
     (if obj = NULL then Some (False, w)
      else do {
        let w = cstr_lock obj w;
        ob \<leftarrow> objs w obj;
        (ok, w) \<leftarrow> (if length_f ob + 1 \<ge> capacity ob
                     then cstr_resize obj (length_f ob + 2) w else Some (True, w));
        if \<not> ok then Some (False, cstr_unlock obj w)
        else do {
          ob \<leftarrow> objs w obj;
          w \<leftarrow> store (data ob) (unat (length_f ob)) chr w;
          w \<leftarrow> store (data ob) (unat (length_f ob + 1)) NUL w;
          let w = put obj (ob\<lparr>length_f := length_f ob + 1\<rparr>) w;
          Some (True, cstr_unlock obj w)
        }
      })"

definition cstr_pop_back :: "ptr \<Rightarrow> world \<Rightarrow> (bool \<times> world) option" where
  "cstr_pop_back obj w =
     (if obj = NULL then Some (False, w)
      else do {
        let w = cstr_lock obj w;
        ob \<leftarrow> objs w obj;
        if length_f ob = 0 then Some (False, cstr_unlock obj w)
        else do {
          w \<leftarrow> store (data ob) (unat (length_f ob - 1)) NUL w;
          let w = put obj (ob\<lparr>length_f := length_f ob - 1\<rparr>) w;
          Some (True, cstr_unlock obj w)
        }
      })"

text \<open>In \<^verbatim>\<open>cstr_append_cstr\<close> the source struct is read after the resize, as the C
  expressions \<^verbatim>\<open>obj2->data\<close> and \<^verbatim>\<open>obj2->length\<close> of the \<^verbatim>\<open>memcpy\<close> call are.\<close>

definition cstr_append_cstr :: "ptr \<Rightarrow> ptr \<Rightarrow> world \<Rightarrow> (bool \<times> world) option" where
  "cstr_append_cstr obj obj2 w =
     (if obj = NULL \<or> obj2 = NULL then Some (False, w)
      else do {
        let w = cstr_lock obj w;
        ob \<leftarrow> objs w obj;
        ob2 \<leftarrow> objs w obj2;
        let new_length = length_f ob + length_f ob2;
        let required_capacity = new_length + 1;
        (ok, w) \<leftarrow> (if required_capacity > capacity ob
                     then cstr_resize obj required_capacity w else Some (True, w));
        if \<not> ok then Some (False, cstr_unlock obj w)
        else do {
          ob \<leftarrow> objs w obj;
          ob2 \<leftarrow> objs w obj2;
          w \<leftarrow> memcpy (data ob) (unat (length_f ob)) (data ob2) 0 (length_f ob2) w;
          w \<leftarrow> store (data ob) (unat new_length) NUL w;
          let w = put obj (ob\<lparr>length_f := new_length\<rparr>) w;
          Some (True, cstr_unlock obj w)
        }
      })"

definition cstr_append_chars :: "ptr \<Rightarrow> string option \<Rightarrow> world \<Rightarrow> (bool \<times> world) option" where
  "cstr_append_chars obj data' w =
     (case data' of
        None \<Rightarrow> Some (False, w)
      | Some str \<Rightarrow>
          if obj = NULL then Some (False, w)
          else do {
            let w = cstr_lock obj w;
            ob \<leftarrow> objs w obj;
            let data_len = strlen str;
            let new_length = length_f ob + data_len;
            let required_capacity = new_length + 1;
            (ok, w) \<leftarrow> (if required_capacity > capacity ob
                         then cstr_resize obj required_capacity w else Some (True, w));
            if \<not> ok then Some (False, cstr_unlock obj w)
            else do {
              ob \<leftarrow> objs w obj;
              w \<leftarrow> store_cells (data ob) (unat (length_f ob))
                     (take (unat data_len) (map Some (c_chars str))) w;
              w \<leftarrow> store (data ob) (unat new_length) NUL w;
              let w = put obj (ob\<lparr>length_f := new_length\<rparr>) w;
              Some (True, cstr_unlock obj w)
            }
          })"

definition cstr_erase :: "ptr \<Rightarrow> size_t \<Rightarrow> size_t \<Rightarrow> world \<Rightarrow> (bool \<times> world) option" where
  "cstr_erase obj index size' w =
     (if obj = NULL then Some (False, w)
      else do {
        let w = cstr_lock obj w;
        ob \<leftarrow> objs w obj;
        if index \<ge> length_f ob \<or> size' = 0 then Some (False, cstr_unlock obj w)
        else do {
          let size' = (if size' > length_f ob - index then length_f ob - index else size');
          let new_length = length_f ob - size';
          let move_size = (length_f ob - (index + size')) + 1;
          w \<leftarrow> memmove (data ob) (unat index) (data ob) (unat index + unat size') move_size w;
          let w = put obj (ob\<lparr>length_f := new_length\<rparr>) w;
          Some (True, cstr_unlock obj w)
        }
      })"

definition cstr_insert :: "ptr \<Rightarrow> size_t \<Rightarrow> char \<Rightarrow> world \<Rightarrow> (bool \<times> world) option" where
  "cstr_insert obj index chr w =
     (if obj = NULL then Some (False, w)
      else do {
        let w = cstr_lock obj w;
        ob \<leftarrow> objs w obj;
        if index > length_f ob then Some (False, cstr_unlock obj w)
        else do {
          let new_length = length_f ob + 1;
          let required_capacity = new_length + 1;
          (ok, w) \<leftarrow> (if required_capacity > capacity ob
                       then cstr_resize obj required_capacity w else Some (True, w));
          if \<not> ok then Some (False, cstr_unlock obj w)
          else do {
            ob \<leftarrow> objs w obj;
            w \<leftarrow> memmove (data ob) (unat index + 1) (data ob) (unat index)
                   ((length_f ob - index) + 1) w;
            w \<leftarrow> store (data ob) (unat index) chr w;
            let w = put obj (ob\<lparr>length_f := new_length\<rparr>) w;
            Some (True, cstr_unlock obj w)
          }
        }
      })"

text \<open>\<^verbatim>\<open>cstr_swap\<close> assigns field by field through the two pointers; the struct at
  \<open>obj2\<close> is read again after each write to \<open>obj\<close>, which matters when both
  pointers name the same struct.\<close>

definition cstr_swap :: "ptr \<Rightarrow> ptr \<Rightarrow> world \<Rightarrow> (bool \<times> world) option" where
  "cstr_swap obj obj2 w =
     (if obj = NULL \<or> obj2 = NULL then Some (False, w)
      else do {
        let w = cstr_lock obj w;
        let w = cstr_lock obj2 w;
        ob \<leftarrow> objs w obj;
        ob2 \<leftarrow> objs w obj2;
        let temp_data = data ob;
        let w = put obj (ob\<lparr>data := data ob2\<rparr>) w;
        ob2 \<leftarrow> objs w obj2;
        let w = put obj2 (ob2\<lparr>data := temp_data\<rparr>) w;
        ob \<leftarrow> objs w obj;
        ob2 \<leftarrow> objs w obj2;
        let temp_length = length_f ob;
        let w = put obj (ob\<lparr>length_f := length_f ob2\<rparr>) w;
        ob2 \<leftarrow> objs w obj2;
        let w = put obj2 (ob2\<lparr>length_f := temp_length\<rparr>) w;
        ob \<leftarrow> objs w obj;
        ob2 \<leftarrow> objs w obj2;
        let temp_capacity = capacity ob;
        let w = put obj (ob\<lparr>capacity := capacity ob2\<rparr>) w;
        ob2 \<leftarrow> objs w obj2;
        let w = put obj2 (ob2\<lparr>capacity := temp_capacity\<rparr>) w;
        let w = cstr_unlock obj2 w;
        Some (True, cstr_unlock obj w)
      })"

section \<open>Trimming\<close>

text \<open>The two \<^verbatim>\<open>while\<close> statements of \<^verbatim>\<open>cstr_trim\<close>.  Their guards compare \<^verbatim>\<open>size_t\<close> values
  only, so on a wrapped index they need not stop: they are partial functions.\<close>

partial_function (option) trim_start :: "ptr \<Rightarrow> size_t \<Rightarrow> size_t \<Rightarrow> world \<Rightarrow> size_t option" where
  "trim_start p end' start w =
     (if start \<le> end'
      then do { c \<leftarrow> load p (unat start) w;
                if isspace c then trim_start p end' (start + 1) w else Some start }
      else Some start)"

partial_function (option) trim_end :: "ptr \<Rightarrow> size_t \<Rightarrow> size_t \<Rightarrow> world \<Rightarrow> size_t option" where
  "trim_end p start end' w =
     (if end' \<ge> start
      then do { c \<leftarrow> load p (unat end') w;
                if isspace c then trim_end p start (end' - 1) w else Some end' }
      else Some end')"

definition cstr_trim :: "ptr \<Rightarrow> world \<Rightarrow> (bool \<times> world) option" where
  "cstr_trim obj w =
     (if obj = NULL then Some (False, w)
      else do {
        let w = cstr_lock obj w;
        ob \<leftarrow> objs w obj;
        if length_f ob = 0 then Some (False, cstr_unlock obj w)
        else do {
          start \<leftarrow> trim_start (data ob) (length_f ob - 1) 0 w;
          end' \<leftarrow> trim_end (data ob) start (length_f ob - 1) w;
          let new_length = (if start \<le> end' then end' - start + 1 else 0);
          w \<leftarrow> (if start > 0 then memmove (data ob) 0 (data ob) (unat start) new_length w
                else Some w);
          w \<leftarrow> store (data ob) (unat new_length) NUL w;
          let w = put obj (ob\<lparr>length_f := new_length\<rparr>) w;
          Some (True, cstr_unlock obj w)
        }
      })"

section \<open>Tokenizers\<close>

text \<open>\<^verbatim>\<open>while (pos < len && strchr(delimiters, obj->data[pos]) != NULL) pos++;\<close>\<close>

function skip_delims :: "string \<Rightarrow> ptr \<Rightarrow> size_t \<Rightarrow> size_t \<Rightarrow> world \<Rightarrow> size_t option" where
  "skip_delims delimiters p len pos w =
     (if pos < len
      then do { c \<leftarrow> load p (unat pos) w;
                if strchr delimiters c then skip_delims delimiters p len (pos + 1) w
                else Some pos }
      else Some pos)"
  by pat_completeness auto
termination
  by (relation "measure (\<lambda>(delimiters, p, len, pos, w). unat len - unat pos)")
     (auto, unat_arith)

text \<open>\<^verbatim>\<open>while (pos < len && strchr(delimiters, obj->data[pos]) == NULL) pos++;\<close>\<close>

function scan_token :: "string \<Rightarrow> ptr \<Rightarrow> size_t \<Rightarrow> size_t \<Rightarrow> world \<Rightarrow> size_t option" where
  "scan_token delimiters p len pos w =
     (if pos < len
      then do { c \<leftarrow> load p (unat pos) w;
                if \<not> strchr delimiters c then scan_token delimiters p len (pos + 1) w
                else Some pos }
      else Some pos)"
  by pat_completeness auto
termination
  by (relation "measure (\<lambda>(delimiters, p, len, pos, w). unat len - unat pos)")
     (auto, unat_arith)

text \<open>The token is handed to \<^verbatim>\<open>cstr_create_from_chars\<close> as the C string at \<open>temp\<close>;
  with a null \<open>token\<close> that function returns before reading it.\<close>

definition emit_token :: "ptr \<Rightarrow> ptr \<Rightarrow> world \<Rightarrow> (bool \<times> world) option" where
  "emit_token token temp w =
     (if token = NULL then Some (False, w)
      else do { str \<leftarrow> c_str temp w; cstr_create_from_chars token (Some str) w })"

text \<open>\<^verbatim>\<open>start_pos\<close> points to the caller's cursor: the argument is its value on entry
  (\<^term>\<open>None\<close> for a null pointer), the second component of the result its value on
  return.\<close>

definition cstr_tokenize ::
  "ptr \<Rightarrow> ptr \<Rightarrow> string option \<Rightarrow> size_t option \<Rightarrow> world
     \<Rightarrow> ((bool \<times> size_t option) \<times> world) option" where
  "cstr_tokenize obj token delimiters start_pos w =
     (if obj = NULL then Some ((False, start_pos), w)
      else case delimiters of
        None \<Rightarrow> Some ((False, start_pos), w)
      | Some delims \<Rightarrow>
         (case start_pos of
            None \<Rightarrow> Some ((False, start_pos), w)
          | Some sp \<Rightarrow> do {
              ob \<leftarrow> objs w obj;
              if sp \<ge> length_f ob then Some ((False, start_pos), w)
              else do {
                let w = cstr_lock obj w;
                let len = length_f ob;
                pos \<leftarrow> skip_delims delims (data ob) len sp w;
                if pos \<ge> len then Some ((False, Some pos), cstr_unlock obj w)
                else do {
                  let token_start = pos;
                  pos \<leftarrow> scan_token delims (data ob) len pos w;
                  let token_end = pos;
                  let token_len = token_end - token_start;
                  (temp, w) \<leftarrow> Some (malloc (token_len + 1) w);
                  if temp = NULL then Some ((False, start_pos), cstr_unlock obj w)
                  else do {
                    w \<leftarrow> memcpy temp 0 (data ob) (unat token_start) token_len w;
                    w \<leftarrow> store temp (unat token_len) NUL w;
                    (ok, w) \<leftarrow> emit_token token temp w;
                    w \<leftarrow> free temp w;
                    if \<not> ok then Some ((False, start_pos), cstr_unlock obj w)
                    else Some ((True, Some (if token_end < len then token_end + 1 else len)),
                               cstr_unlock obj w)
                  }
                }
              }
            }))"

text \<open>The scanner state of \<^verbatim>\<open>cstr_tokenize_ex\<close> and the body of its \<^verbatim>\<open>for\<close> loop.  The
  inner loop over \<^verbatim>\<open>zone_pairs\<close> steps through the string two characters at a time
  and stops at a pair cut short by the terminator.\<close>

record lexer =
  token_end :: size_t
  in_zone :: bool
  zone_end :: char
  escape :: bool

datatype flow = Continue lexer | Break lexer

fun zone_scan :: "string \<Rightarrow> char \<Rightarrow> char option" where
  "zone_scan (a # b # rest) c = (if c = a then Some b else zone_scan rest c)"
| "zone_scan [a] c = None"
| "zone_scan [] c = None"

definition ex_body ::
  "string \<Rightarrow> string option \<Rightarrow> string option \<Rightarrow> size_t \<Rightarrow> char \<Rightarrow> lexer \<Rightarrow> flow" where
  "ex_body delimiters zone_pairs escape_chars pos c st =
     (if escape st then Continue (st\<lparr>escape := False\<rparr>)
      else if in_zone st then
        (if c = zone_end st then Continue (st\<lparr>in_zone := False, zone_end := NUL\<rparr>)
         else Continue st)
      else if strchr delimiters c then Break (st\<lparr>token_end := pos\<rparr>)
      else
        let st = (case zone_pairs of
                    None \<Rightarrow> st
                  | Some zp \<Rightarrow>
                     (case zone_scan (c_chars zp) c of
                        None \<Rightarrow> st
                      | Some e \<Rightarrow> st\<lparr>in_zone := True, zone_end := e\<rparr>));
            st = (case escape_chars of
                    None \<Rightarrow> st
                  | Some ec \<Rightarrow> if strchr ec c then st\<lparr>escape := True\<rparr> else st)
        in Continue st)"

function ex_loop ::
  "string \<Rightarrow> string option \<Rightarrow> string option \<Rightarrow> ptr \<Rightarrow> size_t \<Rightarrow> size_t \<Rightarrow> lexer \<Rightarrow> world
     \<Rightarrow> (size_t \<times> lexer) option" where
  "ex_loop delimiters zone_pairs escape_chars p len pos st w =
     (if pos < len
      then do { c \<leftarrow> load p (unat pos) w;
                case ex_body delimiters zone_pairs escape_chars pos c st of
                  Break st' \<Rightarrow> Some (pos, st')
                | Continue st' \<Rightarrow>
                    ex_loop delimiters zone_pairs escape_chars p len (pos + 1) st' w }
      else Some (pos, st))"
  by pat_completeness auto
termination
  by (relation "measure (\<lambda>(delimiters, zone_pairs, escape_chars, p, len, pos, st, w).
                   unat len - unat pos)")
     (auto, unat_arith)

definition cstr_tokenize_ex ::
  "ptr \<Rightarrow> ptr \<Rightarrow> string option \<Rightarrow> string option \<Rightarrow> string option \<Rightarrow> size_t option \<Rightarrow> world
     \<Rightarrow> ((bool \<times> size_t option) \<times> world) option" where
  "cstr_tokenize_ex obj token delimiters zone_pairs escape_chars start_pos w =
     (if obj = NULL then Some ((False, start_pos), w)
      else case delimiters of
        None \<Rightarrow> Some ((False, start_pos), w)
      | Some delims \<Rightarrow>
         (case start_pos of
            None \<Rightarrow> Some ((False, start_pos), w)
          | Some sp \<Rightarrow> do {
              ob \<leftarrow> objs w obj;
              if sp \<ge> length_f ob then Some ((False, start_pos), w)
              else do {
                let w = cstr_lock obj w;
                let len = length_f ob;
                pos \<leftarrow> skip_delims delims (data ob) len sp w;
                if pos \<ge> len then Some ((False, Some pos), cstr_unlock obj w)
                else do {
                  let token_start = pos;
                  (pos, st) \<leftarrow> ex_loop delims zone_pairs escape_chars (data ob) len pos
                     \<lparr>token_end = invalid, in_zone = False, zone_end = NUL, escape = False\<rparr> w;
                  let token_end = (if pos = len then len else token_end st);
                  let token_len = token_end - token_start;
                  (temp, w) \<leftarrow> Some (malloc (token_len + 1) w);
                  if temp = NULL then Some ((False, start_pos), cstr_unlock obj w)
                  else do {
                    w \<leftarrow> memcpy temp 0 (data ob) (unat token_start) token_len w;
                    w \<leftarrow> store temp (unat token_len) NUL w;
                    (ok, w) \<leftarrow> emit_token token temp w;
                    w \<leftarrow> free temp w;
                    if \<not> ok then Some ((False, start_pos), cstr_unlock obj w)
                    else Some ((True, Some (if token_end < len then token_end + 1 else len)),
                               cstr_unlock obj w)
                  }
                }
              }
            }))"

section \<open>Callers and observations\<close>

text \<open>The loop of the README, which prints and destroys each token:
  \<^verbatim>\<open>while (cstr_tokenize_ex(&str, &token, " ", "\"\"", "\\", &pos)) { ... }\<close>.
  It returns the printed tokens, each with the cursor left by the call that produced
  it, and the cursor left by the final, unsuccessful call.  The same loop around
  \<^verbatim>\<open>cstr_tokenize\<close> follows.\<close>

partial_function (option) tokenize_ex_all ::
  "ptr \<Rightarrow> ptr \<Rightarrow> string option \<Rightarrow> string option \<Rightarrow> string option \<Rightarrow> size_t option \<Rightarrow> world
     \<Rightarrow> (((string \<times> size_t option) list \<times> size_t option) \<times> world) option" where
  "tokenize_ex_all str token delimiters zone_pairs escape_chars pos w =
     do {
       ((found, pos), w) \<leftarrow> cstr_tokenize_ex str token delimiters zone_pairs escape_chars pos w;
       if found then do {
         (d, w) \<leftarrow> cstr_data token w;
         printed \<leftarrow> c_str d w;
         (ok, w) \<leftarrow> cstr_destroy token w;
         ((rest, final), w) \<leftarrow>
            tokenize_ex_all str token delimiters zone_pairs escape_chars pos w;
         Some (((printed, pos) # rest, final), w)
       }
       else Some (([], pos), w)
     }"

partial_function (option) tokenize_all ::
  "ptr \<Rightarrow> ptr \<Rightarrow> string option \<Rightarrow> size_t option \<Rightarrow> world
     \<Rightarrow> (((string \<times> size_t option) list \<times> size_t option) \<times> world) option" where
  "tokenize_all str token delimiters pos w =
     do {
       ((found, pos), w) \<leftarrow> cstr_tokenize str token delimiters pos w;
       if found then do {
         (d, w) \<leftarrow> cstr_data token w;
         printed \<leftarrow> c_str d w;
         (ok, w) \<leftarrow> cstr_destroy token w;
         ((rest, final), w) \<leftarrow> tokenize_all str token delimiters pos w;
         Some (((printed, pos) # rest, final), w)
       }
       else Some (([], pos), w)
     }"

text \<open>A program starts with no struct initialised, an empty heap and an allocator that
  does not fail.\<close>

definition world0 :: world where
  "world0 = \<lparr>objs = Map.empty, heap = Map.empty, brk = 1, alloc_plan = [], cs_log = []\<rparr>"

text \<open>The content of the buffer at \<open>obj\<close>: its first \<^verbatim>\<open>length\<close> bytes.\<close>

definition contents :: "ptr \<Rightarrow> world \<Rightarrow> string option" where
  "contents obj w =
     do { ob \<leftarrow> objs w obj;
          cs \<leftarrow> load_cells (data ob) 0 (unat (length_f ob)) w;
          those cs }"

text \<open>The number of bytes allocated for the buffer at \<open>obj\<close>.\<close>

definition allocated :: "ptr \<Rightarrow> world \<Rightarrow> nat option" where
  "allocated obj w = do { ob \<leftarrow> objs w obj; blk \<leftarrow> heap w (data ob); Some (length blk) }"

text \<open>A caller that inserts the given characters one at a time, all at the same
  index, and stops at the first failure.\<close>

fun insert_each :: "ptr \<Rightarrow> size_t \<Rightarrow> string \<Rightarrow> world \<Rightarrow> (bool \<times> world) option" where
  "insert_each obj index [] w = Some (True, w)"
| "insert_each obj index (c # cs) w =
     do { (ok, w) \<leftarrow> cstr_insert obj index c w;
          if ok then insert_each obj index cs w else Some (False, w) }"

text \<open>A caller that inserts the given characters one at a time in their own order,
  each one position after the previous one, and stops at the first failure.\<close>

fun insert_from :: "ptr \<Rightarrow> size_t \<Rightarrow> string \<Rightarrow> world \<Rightarrow> (bool \<times> world) option" where
  "insert_from obj index [] w = Some (True, w)"
| "insert_from obj index (c # cs) w =
     do { (ok, w) \<leftarrow> cstr_insert obj index c w;
          if ok then insert_from obj (index + 1) cs w else Some (False, w) }"

text \<open>
  A well-formed buffer: the struct is initialised, \<^verbatim>\<open>data\<close> points to a live block
  handed out by the allocator, the block has \<^verbatim>\<open>capacity\<close> bytes, \<^verbatim>\<open>length\<close> is below
  \<^verbatim>\<open>capacity\<close>, the content bytes are determinate and the byte at offset \<^verbatim>\<open>length\<close> is
  the terminator.  The last condition alone is \<open>terminated\<close>.
\<close>

definition well_formed :: "ptr \<Rightarrow> world \<Rightarrow> bool" where
  "well_formed obj w =
     (case objs w obj of
        None \<Rightarrow> False
      | Some ob \<Rightarrow>
          data ob \<noteq> NULL \<and> data ob < brk w \<and>
          (case heap w (data ob) of
             None \<Rightarrow> False
           | Some blk \<Rightarrow>
               length blk = unat (capacity ob) \<and> length_f ob < capacity ob \<and>
               list_all (\<lambda>c. c \<noteq> None) (take (unat (length_f ob)) blk) \<and>
               blk ! unat (length_f ob) = Some NUL))"

definition terminated :: "ptr \<Rightarrow> world \<Rightarrow> bool" where
  "terminated obj w =
     (case objs w obj of
        None \<Rightarrow> False
      | Some ob \<Rightarrow> load (data ob) (unat (length_f ob)) w = Some NUL)"

text \<open>The next allocation request succeeds: the allocator is not scheduled to fail and
  its next address is not the null pointer.\<close>

definition next_alloc_succeeds :: "world \<Rightarrow> bool" where
  "next_alloc_succeeds w =
     (brk w \<noteq> NULL \<and> (case alloc_plan w of False # plan \<Rightarrow> False | _ \<Rightarrow> True))"

text \<open>A store with two well-formed buffers, \<^verbatim>\<open>" ab"\<close> at struct 1 and \<^verbatim>\<open>"x"\<close> at struct 2.\<close>

definition two_buffers :: world where
  "two_buffers =
     \<lparr>objs = [1 \<mapsto> \<lparr>data = 1, length_f = 3, capacity = 4\<rparr>,
              2 \<mapsto> \<lparr>data = 2, length_f = 1, capacity = 2\<rparr>],
      heap = [1 \<mapsto> map Some '' ab'' @ [Some NUL], 2 \<mapsto> [Some CHR ''x'', Some NUL]],
      brk = 3, alloc_plan = [], cs_log = []\<rparr>"

text \<open>Whether a character opens a zone under \<^verbatim>\<open>zone_pairs\<close> (and with which closing
  character), and whether it is found in \<^verbatim>\<open>escape_chars\<close>; a null argument disables the
  check.\<close>

definition opens_zone :: "string option \<Rightarrow> char \<Rightarrow> char option" where
  "opens_zone zone_pairs c =
     (case zone_pairs of None \<Rightarrow> None | Some zp \<Rightarrow> zone_scan (c_chars zp) c)"

definition arms_escape :: "string option \<Rightarrow> char \<Rightarrow> bool" where
  "arms_escape escape_chars c =
     (case escape_chars of None \<Rightarrow> False | Some ec \<Rightarrow> strchr ec c)"

text \<open>
  The scan of \<^verbatim>\<open>cstr_tokenize_ex\<close> written as a function of the bytes alone, to state
  what the loop computes.  The state is whether suppression is armed and, inside a
  zone, the closing character.  A byte is handled by the first of these that applies:
  \<^item> suppression is armed: it is cleared and the byte is passed over;
  \<^item> the scanner is inside a zone: only the closing character is looked for;
  \<^item> the byte is a delimiter: the scan stops (\<^term>\<open>None\<close>);
  \<^item> otherwise the zone-opening check and the escape check are both made, each on its
    own.

  \<open>scanned\<close> is the number of bytes passed before the scan stops, at a delimiter or at
  the end of the bytes; \<open>scanner_at\<close> is the state in which the scanner arrives behind
  the given bytes, \<^term>\<open>None\<close> if it stopped inside them.  \<open>zone_of\<close> reads the zone part of
  that state off the local variables of the loop.
\<close>

definition zone_of :: "lexer \<Rightarrow> char option" where
  "zone_of st = (if in_zone st then Some (zone_end st) else None)"

fun scanner_step ::
  "string \<Rightarrow> string option \<Rightarrow> string option \<Rightarrow> bool \<Rightarrow> char option \<Rightarrow> char
     \<Rightarrow> (bool \<times> char option) option" where
  "scanner_step ds zp ec True zone c = Some (False, zone)"
| "scanner_step ds zp ec False (Some closer) c =
     Some (False, if c = closer then None else Some closer)"
| "scanner_step ds zp ec False None c =
     (if strchr ds c then None else Some (arms_escape ec c, opens_zone zp c))"

fun scanned ::
  "string \<Rightarrow> string option \<Rightarrow> string option \<Rightarrow> bool \<Rightarrow> char option \<Rightarrow> string \<Rightarrow> nat" where
  "scanned ds zp ec armed zone [] = 0"
| "scanned ds zp ec armed zone (c # cs) =
     (case scanner_step ds zp ec armed zone c of
        None \<Rightarrow> 0
      | Some (armed', zone') \<Rightarrow> Suc (scanned ds zp ec armed' zone' cs))"

fun scanner_at ::
  "string \<Rightarrow> string option \<Rightarrow> string option \<Rightarrow> bool \<Rightarrow> char option \<Rightarrow> string
     \<Rightarrow> (bool \<times> char option) option" where
  "scanner_at ds zp ec armed zone [] = Some (armed, zone)"
| "scanner_at ds zp ec armed zone (c # cs) =
     (case scanner_step ds zp ec armed zone c of
        None \<Rightarrow> None
      | Some (armed', zone') \<Rightarrow> scanner_at ds zp ec armed' zone' cs)"

text \<open>Three more stores: the buffer \<^verbatim>\<open>a,b,,c\<close>; a buffer of ten bytes, \<^verbatim>\<open>x\<close>, a
  backslash, a space, \<^verbatim>\<open>"a b"\<close>, a space and \<^verbatim>\<open>c\<close>; and a buffer of the eight bytes
  \<^verbatim>\<open>"x"a 00 b,c\<close> as \<^verbatim>\<open>cstr_create_from_buffer\<close> builds it.\<close>

definition comma_buffer :: world where
  "comma_buffer =
     \<lparr>objs = [1 \<mapsto> \<lparr>data = 1, length_f = 6, capacity = 7\<rparr>],
      heap = [1 \<mapsto> map Some ''a,b,,c'' @ [Some NUL]],
      brk = 2, alloc_plan = [], cs_log = []\<rparr>"

definition quoted_buffer :: world where
  "quoted_buffer =
     \<lparr>objs = [1 \<mapsto> \<lparr>data = 1, length_f = 10, capacity = 11\<rparr>],
      heap = [1 \<mapsto> map Some [CHR ''x'', CHR 0x5C, CHR '' '', CHR 0x22, CHR ''a'', CHR '' '',
                                CHR ''b'', CHR 0x22, CHR '' '', CHR ''c''] @ [Some NUL]],
      brk = 2, alloc_plan = [], cs_log = []\<rparr>"

definition zero_buffer :: world where
  "zero_buffer =
     \<lparr>objs = [1 \<mapsto> \<lparr>data = 1, length_f = 8, capacity = 9\<rparr>],
      heap = [1 \<mapsto> map Some [CHR 0x22, CHR ''x'', CHR 0x22, CHR ''a'', NUL, CHR ''b'',
                                CHR '','', CHR ''c''] @ [Some NUL]],
      brk = 2, alloc_plan = [], cs_log = []\<rparr>"

declare skip_delims.simps [simp del] scan_token.simps [simp del] ex_loop.simps [simp del]

lemmas runtime_defs = malloc_def free_def realloc_def load_cells_def store_cells_def load_def
  store_def memmove_def memcpy_def SecureZeroMemory_def c_chars_def c_str_def strlen_def
  strchr_def isspace_def InitializeCriticalSection_def DeleteCriticalSection_def
  cstr_lock_def cstr_unlock_def put_def cstr_strdup_def world0_def contents_def allocated_def

section \<open>Copy construction\<close>

text \<open>
  C1.  \<^verbatim>\<open>cstr_create_from_cstr\<close> is documented to return false on allocation failure.
  The source is the buffer \<^verbatim>\<open>"abc"\<close> (length 3, capacity 4) and the allocation made by
  \<^verbatim>\<open>cstr_strdup\<close> fails: the function still returns true, and the destination holds a
  null \<^verbatim>\<open>data\<close> pointer next to the length and capacity of the source.  The second
  run copies a buffer whose capacity exceeds its length plus one (\<^verbatim>\<open>"abcdef"\<close> after
  erasing three bytes): the copy records capacity 7 over a block of 4 bytes.
\<close>

theorem cstr_create_from_cstr_ignores_failed_allocation:
  "(do { (ok, w) \<leftarrow> cstr_create_from_chars 1 (Some ''abc'') world0;
         (ok, w) \<leftarrow> cstr_create_from_cstr 2 1 (w\<lparr>alloc_plan := [False]\<rparr>);
         Some (ok, objs w 2) })
     = Some (True, Some \<lparr>data = NULL, length_f = 3, capacity = 4\<rparr>)
   \<and> (do { (ok, w) \<leftarrow> cstr_create_from_chars 1 (Some ''abcdef'') world0;
           (ok, w) \<leftarrow> cstr_erase 1 0 3 w;
           (ok, w) \<leftarrow> cstr_create_from_cstr 2 1 w;
           (cap, w) \<leftarrow> cstr_capacity 2 w;
           size \<leftarrow> allocated 2 w;
           Some (ok, cap, size) })
     = Some (True, 7, 4)"
  by (simp add: runtime_defs cstr_create_from_chars_def cstr_create_from_cstr_def
      cstr_erase_def cstr_capacity_def Let_def)

section \<open>Trimming reports a modification that did not happen\<close>

text \<open>
  C6.  \<^verbatim>\<open>cstr_trim\<close> is documented to return true if the buffer was modified and false
  otherwise.  On the buffer \<^verbatim>\<open>"x"\<close>, which has no whitespace at either end, it returns
  true and leaves the content as it was.
\<close>

theorem cstr_trim_reports_true_without_trimming:
  "(do { (ok, w) \<leftarrow> cstr_create_from_chars 1 (Some ''x'') world0;
         before \<leftarrow> contents 1 w;
         (trimmed, w) \<leftarrow> cstr_trim 1 w;
         after \<leftarrow> contents 1 w;
         Some (before, trimmed, after) })
     = Some (''x'', True, ''x'')"
  by (simp add: runtime_defs cstr_create_from_chars_def cstr_trim_def Let_def
      trim_start.simps trim_end.simps)

section \<open>Unchecked accessors\<close>

text \<open>
  C8.  \<^verbatim>\<open>cstr_back\<close> is documented to return 0 for an empty buffer and \<^verbatim>\<open>cstr_get\<close>
  to return 0 for an invalid index.  On the empty buffer made by \<^verbatim>\<open>cstr_create\<close>,
  \<^verbatim>\<open>cstr_back\<close> reads \<^verbatim>\<open>data[length - 1]\<close>, which is offset \<open>2^64 - 1\<close> of a block of
  one byte: the read is outside the allocated storage and the call has no defined
  result.  On \<^verbatim>\<open>"abcdef"\<close> with its first three bytes erased (length 3), \<^verbatim>\<open>cstr_get\<close> at
  the invalid index 4 returns the stale byte \<^verbatim>\<open>'e'\<close>.
\<close>

theorem cstr_back_empty_reads_outside_storage:
  "(do { (ok, w) \<leftarrow> cstr_create 1 world0; size \<leftarrow> allocated 1 w; Some (ok, size) })
     = Some (True, 1)
   \<and> (do { (ok, w) \<leftarrow> cstr_create 1 world0; cstr_back 1 w }) = None
   \<and> (do { (ok, w) \<leftarrow> cstr_create_from_chars 1 (Some ''abcdef'') world0;
           (ok, w) \<leftarrow> cstr_erase 1 0 3 w;
           (len, w) \<leftarrow> cstr_length 1 w;
           (c, w) \<leftarrow> cstr_get 1 4 w;
           Some (ok, len, c) })
     = Some (True, 3, CHR ''e'')"
  by (simp add: runtime_defs cstr_create_def cstr_back_def cstr_get_def unat_gt_0
      cstr_create_from_chars_def cstr_erase_def cstr_length_def Let_def)

section \<open>Swapping\<close>

lemma cstr_swap_step:
  assumes "obj \<noteq> NULL" and "obj2 \<noteq> NULL" and "objs w obj = Some a" and "objs w obj2 = Some b"
  shows "cstr_swap obj obj2 w =
           Some (True, w\<lparr>objs := (objs w)(obj \<mapsto> b, obj2 \<mapsto> a),
                          cs_log := cs_log w @ [Enter obj, Enter obj2,
                                   Assign obj, Assign obj2, Assign obj, Assign obj2,
                                   Assign obj, Assign obj2,
                                   Leave obj2, Leave obj]\<rparr>)"
proof (cases "obj = obj2")
  case True
  with assms have "a = b" by simp
  with True assms show ?thesis
    by (simp add: cstr_swap_def cstr_lock_def cstr_unlock_def put_def Let_def)
next
  case False
  have eqs: "a\<lparr>data := data b, length_f := length_f b, capacity := capacity b\<rparr> = b"
    "b\<lparr>data := data a, length_f := length_f a, capacity := capacity a\<rparr> = a"
    by simp_all
  from False assms show ?thesis
    by (simp add: cstr_swap_def cstr_lock_def cstr_unlock_def put_def Let_def fun_upd_twist eqs)
qed

text \<open>
  C9, as the code has it.  \<^verbatim>\<open>cstr_swap\<close> on two initialised structs returns true and
  exchanges their \<^verbatim>\<open>data\<close> pointers, lengths and capacities; no heap block is touched.
  It enters the critical section of its first argument, then that of its second,
  makes its six assignments, and leaves the critical sections in the opposite order:
  every assignment is made after both critical sections are entered and before
  either is left, and the order of acquisition is the order of the arguments.
\<close>

theorem cstr_swap_exchanges_in_argument_order:
  assumes "obj \<noteq> NULL" and "obj2 \<noteq> NULL" and "objs w obj = Some a" and "objs w obj2 = Some b"
  shows "cstr_swap obj obj2 w =
           Some (True, w\<lparr>objs := (objs w)(obj \<mapsto> b, obj2 \<mapsto> a),
                          cs_log := cs_log w @ [Enter obj, Enter obj2,
                                   Assign obj, Assign obj2, Assign obj, Assign obj2,
                                   Assign obj, Assign obj2,
                                   Leave obj2, Leave obj]\<rparr>)"
  using assms by (rule cstr_swap_step)

theorem cstr_swap_exchanges_in_argument_order_witness:
  "cstr_swap 1 2 \<lparr>objs = [1 \<mapsto> \<lparr>data = 1, length_f = 0, capacity = 1\<rparr>,
                            2 \<mapsto> \<lparr>data = 2, length_f = 1, capacity = 2\<rparr>],
                    heap = [1 \<mapsto> [Some NUL], 2 \<mapsto> [Some CHR ''x'', Some NUL]],
                    brk = 3, alloc_plan = [], cs_log = []\<rparr>
     = Some (True, \<lparr>objs = [1 \<mapsto> \<lparr>data = 2, length_f = 1, capacity = 2\<rparr>,
                            2 \<mapsto> \<lparr>data = 1, length_f = 0, capacity = 1\<rparr>],
                    heap = [1 \<mapsto> [Some NUL], 2 \<mapsto> [Some CHR ''x'', Some NUL]],
                    brk = 3, alloc_plan = [],
                    cs_log = [Enter 1, Enter 2, Assign 1, Assign 2, Assign 1, Assign 2,
                              Assign 1, Assign 2, Leave 2, Leave 1]\<rparr>)"
  using cstr_swap_exchanges_in_argument_order
    [of 1 2 "\<lparr>objs = [1 \<mapsto> \<lparr>data = 1, length_f = 0, capacity = 1\<rparr>,
                            2 \<mapsto> \<lparr>data = 2, length_f = 1, capacity = 2\<rparr>],
                    heap = [1 \<mapsto> [Some NUL], 2 \<mapsto> [Some CHR ''x'', Some NUL]],
                    brk = 3, alloc_plan = [], cs_log = []\<rparr>"
        "\<lparr>data = 1, length_f = 0, capacity = 1\<rparr>" "\<lparr>data = 2, length_f = 1, capacity = 2\<rparr>"]
  by simp

text \<open>
  The claim asks for an acquisition order that does not depend on the order of the
  arguments.  Two buffers at the addresses 1 and 2: \<^verbatim>\<open>cstr_swap(1, 2)\<close> enters 1 then 2,
  \<^verbatim>\<open>cstr_swap(2, 1)\<close> enters 2 then 1.
\<close>

theorem cstr_swap_lock_order_counterexample:
  "(do { (ok, w) \<leftarrow> cstr_create 1 world0;
         (ok, w) \<leftarrow> cstr_create 2 w;
         (ok, w1) \<leftarrow> cstr_swap 1 2 (w\<lparr>cs_log := []\<rparr>);
         (ok, w2) \<leftarrow> cstr_swap 2 1 (w\<lparr>cs_log := []\<rparr>);
         Some (cs_log w1, cs_log w2) })
     = Some ([Enter 1, Enter 2, Assign 1, Assign 2, Assign 1, Assign 2, Assign 1, Assign 2,
              Leave 2, Leave 1],
             [Enter 2, Enter 1, Assign 2, Assign 1, Assign 2, Assign 1, Assign 2, Assign 1,
              Leave 1, Leave 2])"
  by (simp add: runtime_defs cstr_create_def cstr_swap_def Let_def)

section \<open>The README example\<close>

text \<open>
  C4.  The README loop over the buffer \<^verbatim>\<open>Hello, "my 'world!'"\<close> with the delimiter
  space, the zone pair of double quotes and the escape character backslash, from
  cursor 0: the first call yields \<^verbatim>\<open>Hello,\<close> and leaves the cursor at 7, the second yields
  \<^verbatim>\<open>"my 'world!'"\<close> and leaves the cursor at 20, the length of the buffer, and the third
  call finds nothing and leaves the cursor at 20.
\<close>

theorem tokenize_ex_readme_example:
  "(do { (ok, w) \<leftarrow> cstr_create_from_chars 1 (Some ''Hello, \"my 'world!'\"'') world0;
         (len, w) \<leftarrow> cstr_length 1 w;
         ((tokens, final), w) \<leftarrow>
            tokenize_ex_all 1 2 (Some '' '') (Some ''\"\"'') (Some [CHR 0x5C]) (Some 0) w;
         Some (len, tokens, final) })
     = Some (20, [(''Hello,'', Some 7), (''\"my 'world!'\"'', Some 20)], Some 20)"
  by (simp add: runtime_defs cstr_create_from_chars_def cstr_tokenize_ex_def emit_token_def
      cstr_data_def cstr_destroy_def cstr_length_def tokenize_ex_all.simps ex_body_def
      skip_delims.simps ex_loop.simps Let_def)

section \<open>Erasing and inserting back\<close>

text \<open>Sums and differences of \<^verbatim>\<open>size_t\<close> values that stay below a third one do not
  wrap.\<close>

lemma unat_add_bounded:
  fixes a b c :: "'a::len word"
  assumes "unat a + unat b \<le> unat c"
  shows "unat (a + b) = unat a + unat b"
proof -
  have "unat c < 2 ^ LENGTH('a)" by (rule unsigned_less)
  with assms have "unat a + unat b < 2 ^ LENGTH('a)" by linarith
  then show ?thesis by (simp add: unat_add_lem)
qed

lemma unat_inc_bounded:
  fixes a c :: "'a::len word"
  assumes "unat a < unat c"
  shows "unat (a + 1) = Suc (unat a)"
  using unat_add_bounded[of a 1 c] assms by simp

lemma erase_arith:
  fixes index count len :: "'a::len word"
  assumes "index < len" "0 < count" "count \<le> len - index"
  shows "unat index < unat len"
    and "unat index + unat count \<le> unat len"
    and "0 < unat count"
    and "unat (len - (index + count) + 1) = unat len - (unat index + unat count) + 1"
    and "unat (len - count) = unat len - unat count"
proof -
  show i: "unat index < unat len" using assms(1) by (simp add: word_less_nat_alt)
  have "index \<le> len" using assms(1) by simp
  then have "unat (len - index) = unat len - unat index" by (rule unat_sub)
  with assms(3) show ik: "unat index + unat count \<le> unat len"
    using i by (simp add: word_le_nat_alt)
  show k: "0 < unat count" using assms(2) by (simp add: word_less_nat_alt)
  have ic: "unat (index + count) = unat index + unat count"
    using ik by (rule unat_add_bounded)
  then have "index + count \<le> len" using ik by (simp add: word_le_nat_alt)
  then have s: "unat (len - (index + count)) = unat len - (unat index + unat count)"
    using ic by (simp add: unat_sub)
  have "unat (len - (index + count)) < unat len" using s k i ik by linarith
  then have "unat (len - (index + count) + 1) = Suc (unat (len - (index + count)))"
    by (rule unat_inc_bounded)
  with s show "unat (len - (index + count) + 1) = unat len - (unat index + unat count) + 1"
    by simp
  have "count \<le> len" using ik by (simp add: word_le_nat_alt)
  then show "unat (len - count) = unat len - unat count" by (rule unat_sub)
qed

lemma cstr_erase_step:
  assumes "obj \<noteq> NULL" "objs w obj = Some ob" "data ob \<noteq> NULL" "heap w (data ob) = Some blk"
    and "index < length_f ob" "0 < count" "count \<le> length_f ob - index"
    and "unat (length_f ob) < length blk"
  shows "cstr_erase obj index count w =
    Some (True, w\<lparr>objs := (objs w)(obj \<mapsto> ob\<lparr>length_f := length_f ob - count\<rparr>),
                   heap := (heap w)(data ob \<mapsto>
                      take (unat index) blk
                      @ take (Suc (unat (length_f ob) - (unat index + unat count)))
                             (drop (unat index + unat count) blk)
                      @ drop (Suc (unat (length_f ob) - unat count)) blk),
                   cs_log := cs_log w @ [Enter obj, Assign obj, Leave obj]\<rparr>)"
proof -
  note ar = erase_arith[OF assms(5-7)]
  have c1: "\<not> length_f ob \<le> index" using assms(5) by simp
  have c2: "count \<noteq> 0" using assms(6) by auto
  have c3: "\<not> length_f ob - index < count" using assms(7) by simp
  have b1: "Suc (unat index + unat count + (unat (length_f ob) - (unat index + unat count))) \<le> length blk"
    using ar assms(8) by linarith
  have b3: "unat index + (unat (length_f ob) - (unat index + unat count)) = unat (length_f ob) - unat count"
    using ar by linarith
  show ?thesis
    using assms(1-4) c1 c2 c3 b1
    by (simp add: cstr_erase_def cstr_lock_def cstr_unlock_def put_def memmove_def
        load_cells_def store_cells_def Let_def ar(4) b3)
qed


lemma insert_arith:
  fixes index len cap :: "'a::len word"
  assumes "index \<le> len" "unat len + 2 \<le> unat cap"
  shows "unat index \<le> unat len"
    and "unat (len + 1) = Suc (unat len)"
    and "\<not> cap < len + 1 + 1"
    and "unat (len - index + 1) = Suc (unat len - unat index)"
    and "\<not> len < index"
proof -
  show i: "unat index \<le> unat len" using assms(1) by (simp add: word_le_nat_alt)
  have lc: "unat len < unat cap" using assms(2) by linarith
  then show l1: "unat (len + 1) = Suc (unat len)" by (rule unat_inc_bounded)
  have "unat (len + 1) < unat cap" using l1 assms(2) by linarith
  then have "unat (len + 1 + 1) = Suc (unat (len + 1))" by (rule unat_inc_bounded)
  with l1 assms(2) show "\<not> cap < len + 1 + 1" by (simp add: word_less_nat_alt)
  have s: "unat (len - index) = unat len - unat index" using assms(1) by (rule unat_sub)
  then have "unat (len - index) < unat cap" using lc by linarith
  then have "unat (len - index + 1) = Suc (unat (len - index))" by (rule unat_inc_bounded)
  with s show "unat (len - index + 1) = Suc (unat len - unat index)" by simp
  show "\<not> len < index" using assms(1) by simp
qed

lemma cstr_insert_step:
  assumes "obj \<noteq> NULL" "objs w obj = Some ob" "data ob \<noteq> NULL" "heap w (data ob) = Some blk"
    and "index \<le> length_f ob" and "unat (length_f ob) + 2 \<le> unat (capacity ob)"
    and "unat (capacity ob) \<le> length blk"
  shows "cstr_insert obj index c w =
    Some (True, w\<lparr>objs := (objs w)(obj \<mapsto> ob\<lparr>length_f := length_f ob + 1\<rparr>),
                   heap := (heap w)(data ob \<mapsto>
                      take (unat index) blk @ [Some c]
                      @ take (Suc (unat (length_f ob) - unat index)) (drop (unat index) blk)
                      @ drop (Suc (Suc (unat (length_f ob)))) blk),
                   cs_log := cs_log w @ [Enter obj, Assign obj, Leave obj]\<rparr>)"
proof -
  note ar = insert_arith[OF assms(5,6)]
  have b1: "Suc (Suc (unat (length_f ob))) \<le> length blk" using assms(6,7) by linarith
  have b2: "Suc (unat index + (unat (length_f ob) - unat index)) = Suc (unat (length_f ob))"
    using ar(1) by linarith
  show ?thesis
    using assms(1-4) ar b1 b2
    apply (simp add: cstr_insert_def cstr_lock_def cstr_unlock_def put_def memmove_def
        load_cells_def store_cells_def store_def Let_def)
    done
qed


lemma insert_each_into_slack:
  assumes "obj \<noteq> NULL" "objs w obj = Some ob" "data ob \<noteq> NULL"
    and "heap w (data ob) = Some (P @ T @ J @ X)"
    and "length P = unat index" "unat (length_f ob) = length P + t" "length T = Suc t"
    and "length J = length ds" "unat (capacity ob) = length (P @ T @ J @ X)"
  shows "\<exists>w'. insert_each obj index ds w = Some (True, w')
           \<and> objs w' = (objs w)(obj \<mapsto> ob\<lparr>length_f := length_f ob + of_nat (length ds)\<rparr>)
           \<and> heap w' = (heap w)(data ob \<mapsto> P @ map Some (rev ds) @ T @ X)"
  using assms
proof (induction ds arbitrary: w ob T J t)
  case Nil
  then show ?case by (simp add: map_upd_triv)
next
  case (Cons d ds)
  from Cons.prems(8) obtain j J' where J: "J = j # J'" and J': "length J' = length ds"
    by (cases J) auto
  let ?blk = "P @ T @ J @ X"
  have idx: "index \<le> length_f ob"
    using Cons.prems(5,6) by (simp add: word_le_nat_alt)
  have cap: "unat (length_f ob) + 2 \<le> unat (capacity ob)"
    using Cons.prems(6,7,9) J by simp
  have len1: "unat (length_f ob + 1) = Suc (unat (length_f ob))"
    using insert_arith(2)[OF idx cap] .
  define w1 where "w1 = w\<lparr>objs := (objs w)(obj \<mapsto> ob\<lparr>length_f := length_f ob + 1\<rparr>),
                   heap := (heap w)(data ob \<mapsto>
                      take (unat index) ?blk @ [Some d]
                      @ take (Suc (unat (length_f ob) - unat index)) (drop (unat index) ?blk)
                      @ drop (Suc (Suc (unat (length_f ob)))) ?blk),
                   cs_log := cs_log w @ [Enter obj, Assign obj, Leave obj]\<rparr>"
  have step: "cstr_insert obj index d w = Some (True, w1)"
    unfolding w1_def
    by (rule cstr_insert_step[OF Cons.prems(1-4) idx cap]) (simp add: Cons.prems(9))
  have blk1: "take (unat index) ?blk @ [Some d]
                @ take (Suc (unat (length_f ob) - unat index)) (drop (unat index) ?blk)
                @ drop (Suc (Suc (unat (length_f ob)))) ?blk
              = P @ (Some d # T) @ J' @ X"
    using Cons.prems(5,6,7) J by simp
  have h1: "heap w1 (data ob) = Some (P @ (Some d # T) @ J' @ X)"
    unfolding w1_def using blk1 by simp
  have o1: "objs w1 obj = Some (ob\<lparr>length_f := length_f ob + 1\<rparr>)"
    unfolding w1_def by simp
  have "\<exists>w'. insert_each obj index ds w1 = Some (True, w')
           \<and> objs w' = (objs w1)(obj \<mapsto> ob\<lparr>length_f := length_f ob + 1\<rparr>
                                       \<lparr>length_f := length_f (ob\<lparr>length_f := length_f ob + 1\<rparr>)
                                                      + of_nat (length ds)\<rparr>)
           \<and> heap w' = (heap w1)(data (ob\<lparr>length_f := length_f ob + 1\<rparr>)
                                    \<mapsto> P @ map Some (rev ds) @ (Some d # T) @ X)"
  proof (rule Cons.IH[where w=w1 and ob="ob\<lparr>length_f := length_f ob + 1\<rparr>"
        and T="Some d # T" and t="Suc t" and J=J'])
    show "obj \<noteq> NULL" by (rule Cons.prems(1))
    show "objs w1 obj = Some (ob\<lparr>length_f := length_f ob + 1\<rparr>)" by (rule o1)
    show "data (ob\<lparr>length_f := length_f ob + 1\<rparr>) \<noteq> NULL" using Cons.prems(3) by simp
    show "heap w1 (data (ob\<lparr>length_f := length_f ob + 1\<rparr>)) = Some (P @ (Some d # T) @ J' @ X)"
      using h1 by simp
    show "length P = unat index" by (rule Cons.prems(5))
    show "unat (length_f (ob\<lparr>length_f := length_f ob + 1\<rparr>)) = length P + Suc t"
      using len1 Cons.prems(6) by simp
    show "length (Some d # T) = Suc (Suc t)" using Cons.prems(7) by simp
    show "length J' = length ds" by (rule J')
    show "unat (capacity (ob\<lparr>length_f := length_f ob + 1\<rparr>)) = length (P @ (Some d # T) @ J' @ X)"
      using Cons.prems(9) J by simp
  qed
  then obtain w' where r: "insert_each obj index ds w1 = Some (True, w')"
    and ro: "objs w' = (objs w1)(obj \<mapsto> ob\<lparr>length_f := length_f ob + 1 + of_nat (length ds)\<rparr>)"
    and rh: "heap w' = (heap w1)(data ob \<mapsto> P @ map Some (rev ds) @ (Some d # T) @ X)"
    by auto
  have ow1: "objs w1 = (objs w)(obj \<mapsto> ob\<lparr>length_f := length_f ob + 1\<rparr>)"
    unfolding w1_def by simp
  have hw1: "heap w1 = (heap w)(data ob \<mapsto> P @ (Some d # T) @ J' @ X)"
    unfolding w1_def using blk1 by simp
  show ?case
  proof (intro exI conjI)
    show "insert_each obj index (d # ds) w = Some (True, w')" using step r by simp
    show "objs w' = (objs w)(obj \<mapsto> ob\<lparr>length_f := length_f ob + of_nat (length (d # ds))\<rparr>)"
      using ro ow1 by (simp add: add.assoc)
    show "heap w' = (heap w)(data ob \<mapsto> P @ map Some (rev (d # ds)) @ T @ X)"
      using rh hw1 by simp
  qed
qed


lemma insert_from_into_slack:
  assumes "obj \<noteq> NULL" "objs w obj = Some ob" "data ob \<noteq> NULL"
    and "heap w (data ob) = Some (P @ T @ J @ X)"
    and "length P = unat index" "unat (length_f ob) = length P + t" "length T = Suc t"
    and "length J = length ds" "unat (capacity ob) = length (P @ T @ J @ X)"
  shows "\<exists>w'. insert_from obj index ds w = Some (True, w')
           \<and> objs w' = (objs w)(obj \<mapsto> ob\<lparr>length_f := length_f ob + of_nat (length ds)\<rparr>)
           \<and> heap w' = (heap w)(data ob \<mapsto> P @ map Some ds @ T @ X)"
  using assms
proof (induction ds arbitrary: w ob P J index)
  case Nil
  then show ?case by (simp add: map_upd_triv)
next
  case (Cons d ds)
  from Cons.prems(8) obtain j J' where J: "J = j # J'" and J': "length J' = length ds"
    by (cases J) auto
  let ?blk = "P @ T @ J @ X"
  let ?ob1 = "ob\<lparr>length_f := length_f ob + 1\<rparr>"
  have idx: "index \<le> length_f ob"
    using Cons.prems(5,6) by (simp add: word_le_nat_alt)
  have cap: "unat (length_f ob) + 2 \<le> unat (capacity ob)"
    using Cons.prems(6,7,9) J by simp
  have len1: "unat (length_f ob + 1) = Suc (unat (length_f ob))"
    using insert_arith(2)[OF idx cap] .
  have "unat index < unat (capacity ob)" using Cons.prems(5,6) cap by linarith
  then have idx1: "unat (index + 1) = Suc (unat index)" by (rule unat_inc_bounded)
  define w1 where "w1 = w\<lparr>objs := (objs w)(obj \<mapsto> ?ob1),
                   heap := (heap w)(data ob \<mapsto>
                      take (unat index) ?blk @ [Some d]
                      @ take (Suc (unat (length_f ob) - unat index)) (drop (unat index) ?blk)
                      @ drop (Suc (Suc (unat (length_f ob)))) ?blk),
                   cs_log := cs_log w @ [Enter obj, Assign obj, Leave obj]\<rparr>"
  have step: "cstr_insert obj index d w = Some (True, w1)"
    unfolding w1_def
    by (rule cstr_insert_step[OF Cons.prems(1-4) idx cap]) (simp add: Cons.prems(9))
  have blk1: "take (unat index) ?blk @ [Some d]
                @ take (Suc (unat (length_f ob) - unat index)) (drop (unat index) ?blk)
                @ drop (Suc (Suc (unat (length_f ob)))) ?blk
              = (P @ [Some d]) @ T @ J' @ X"
    using Cons.prems(5,6,7) J by simp
  have ow1: "objs w1 = (objs w)(obj \<mapsto> ?ob1)"
    unfolding w1_def by simp
  have hw1: "heap w1 = (heap w)(data ob \<mapsto> (P @ [Some d]) @ T @ J' @ X)"
    unfolding w1_def using blk1 by simp
  have "\<exists>w'. insert_from obj (index + 1) ds w1 = Some (True, w')
           \<and> objs w' = (objs w1)(obj \<mapsto> ?ob1\<lparr>length_f := length_f ?ob1 + of_nat (length ds)\<rparr>)
           \<and> heap w' = (heap w1)(data ?ob1 \<mapsto> (P @ [Some d]) @ map Some ds @ T @ X)"
  proof (rule Cons.IH[where w=w1 and ob="?ob1" and P="P @ [Some d]" and J=J'])
    show "obj \<noteq> NULL" by (rule Cons.prems(1))
    show "objs w1 obj = Some ?ob1" by (simp add: ow1)
    show "data ?ob1 \<noteq> NULL" using Cons.prems(3) by simp
    show "heap w1 (data ?ob1) = Some ((P @ [Some d]) @ T @ J' @ X)" by (simp add: hw1)
    show "length (P @ [Some d]) = unat (index + 1)" using Cons.prems(5) idx1 by simp
    show "unat (length_f ?ob1) = length (P @ [Some d]) + t" using len1 Cons.prems(6) by simp
    show "length T = Suc t" by (rule Cons.prems(7))
    show "length J' = length ds" by (rule J')
    show "unat (capacity ?ob1) = length ((P @ [Some d]) @ T @ J' @ X)"
      using Cons.prems(9) J by simp
  qed
  then obtain w' where r: "insert_from obj (index + 1) ds w1 = Some (True, w')"
    and ro: "objs w' = (objs w1)(obj \<mapsto> ob\<lparr>length_f := length_f ob + 1 + of_nat (length ds)\<rparr>)"
    and rh: "heap w' = (heap w1)(data ob \<mapsto> (P @ [Some d]) @ map Some ds @ T @ X)"
    by auto
  show ?case
  proof (intro exI conjI)
    show "insert_from obj index (d # ds) w = Some (True, w')" using step r by simp
    show "objs w' = (objs w)(obj \<mapsto> ob\<lparr>length_f := length_f ob + of_nat (length (d # ds))\<rparr>)"
      using ro ow1 by (simp add: add.assoc)
    show "heap w' = (heap w)(data ob \<mapsto> P @ map Some (d # ds) @ T @ X)"
      using rh hw1 by simp
  qed
qed


text \<open>
  C7.  On a well-formed buffer, erasing \<open>count\<close> bytes at a valid \<open>index\<close> (with
  \<open>index + count\<close> within the length) and then inserting the removed bytes back at
  \<open>index\<close>, one \<^verbatim>\<open>cstr_insert\<close> call per byte, succeeds at every call and restores
  the struct and the whole block: content, terminator, length and capacity.  This
  holds for both ways of putting the bytes back one at a time: all at \<open>index\<close>, last
  removed byte first, so that each lands in front of the ones already restored; and
  in their own order, the \<open>k\<close>-th removed byte at \<open>index + k\<close>.
\<close>

theorem erase_then_insert_restores:
  assumes "obj \<noteq> NULL" and "well_formed obj w"
    and "objs w obj = Some ob" and "heap w (data ob) = Some blk"
    and "index < length_f ob" and "0 < count" and "count \<le> length_f ob - index"
    and "take (unat count) (drop (unat index) blk) = map Some removed"
  shows "\<exists>w1 w2 w3. cstr_erase obj index count w = Some (True, w1)
           \<and> insert_each obj index (rev removed) w1 = Some (True, w2)
           \<and> objs w2 = objs w \<and> heap w2 = heap w
           \<and> insert_from obj index removed w1 = Some (True, w3)
           \<and> objs w3 = objs w \<and> heap w3 = heap w"
proof -
  from assms(2-4) have nn: "data ob \<noteq> NULL" and cap: "length blk = unat (capacity ob)"
    and lt: "length_f ob < capacity ob"
    by (simp_all add: well_formed_def)
  from lt cap have n_blk: "unat (length_f ob) < length blk" by (simp add: word_less_nat_alt)
  note ar = erase_arith[OF assms(5-7)]
  define i where "i = unat index"
  define k where "k = unat count"
  define n where "n = unat (length_f ob)"
  define t where "t = n - (i + k)"
  define P where "P = take i blk"
  define T where "T = take (Suc t) (drop (i + k) blk)"
  define J where "J = take k (drop (Suc (n - k)) blk)"
  define X where "X = drop (Suc n) blk"
  have ik: "i + k \<le> n" and k0: "0 < k" and nb: "n < length blk"
    using ar n_blk by (simp_all add: i_def k_def n_def)
  have R: "take k (drop i blk) = map Some removed" using assms(8) by (simp add: i_def k_def)
  have lenR: "length removed = k"
  proof -
    have "length (map Some removed) = length (take k (drop i blk))" using R by simp
    then show ?thesis using ik nb by simp
  qed
  have dec: "blk = P @ map Some removed @ T @ X"
  proof -
    have "blk = take i blk @ drop i blk" by simp
    also have "drop i blk = take k (drop i blk) @ drop (i + k) blk"
      by (metis add.commute append_take_drop_id drop_drop)
    also have "drop (i + k) blk = take (Suc t) (drop (i + k) blk) @ drop (Suc n) blk"
    proof -
      have "Suc t + (i + k) = Suc n" using ik by (simp add: t_def)
      then show ?thesis by (metis append_take_drop_id drop_drop)
    qed
    finally show ?thesis by (simp add: P_def T_def X_def R)
  qed
  have slack: "drop (Suc (n - k)) blk = J @ X"
  proof -
    have "k + Suc (n - k) = Suc n" using ik by simp
    then show ?thesis unfolding J_def X_def by (metis append_take_drop_id drop_drop)
  qed
  have lenP: "length P = i" and lenT: "length T = Suc t" and lenJ: "length J = k"
    using ik nb by (simp_all add: P_def T_def J_def t_def)
  define ob1 where "ob1 = ob\<lparr>length_f := length_f ob - count\<rparr>"
  define w1 where "w1 = w\<lparr>objs := (objs w)(obj \<mapsto> ob1),
                   heap := (heap w)(data ob \<mapsto> P @ T @ J @ X),
                   cs_log := cs_log w @ [Enter obj, Assign obj, Leave obj]\<rparr>"
  have erase: "cstr_erase obj index count w = Some (True, w1)"
    using cstr_erase_step[OF assms(1,3) nn assms(4-7) n_blk]
    by (simp add: w1_def ob1_def P_def T_def t_def slack[unfolded n_def k_def] i_def k_def n_def)
  have "\<exists>w'. insert_each obj index (rev removed) w1 = Some (True, w')
           \<and> objs w' = (objs w1)(obj \<mapsto> ob1\<lparr>length_f := length_f ob1 + of_nat (length (rev removed))\<rparr>)
           \<and> heap w' = (heap w1)(data ob1 \<mapsto> P @ map Some (rev (rev removed)) @ T @ X)"
  proof (rule insert_each_into_slack[where t=t and J=J])
    show "obj \<noteq> NULL" by (rule assms(1))
    show "objs w1 obj = Some ob1" by (simp add: w1_def)
    show "data ob1 \<noteq> NULL" using nn by (simp add: ob1_def)
    show "heap w1 (data ob1) = Some (P @ T @ J @ X)" by (simp add: w1_def ob1_def)
    show "length P = unat index" using lenP by (simp add: i_def)
    show "unat (length_f ob1) = length P + t"
      using ar(5) ik lenP by (simp add: ob1_def t_def i_def k_def n_def)
    show "length T = Suc t" by (rule lenT)
    show "length J = length (rev removed)" using lenJ lenR by simp
    show "unat (capacity ob1) = length (P @ T @ J @ X)"
    proof -
      have "length (P @ T @ J @ X) = length blk"
        using lenP lenT lenJ ik nb by (simp add: X_def t_def)
      then show ?thesis using cap by (simp add: ob1_def)
    qed
  qed
  then obtain w2 where ins: "insert_each obj index (rev removed) w1 = Some (True, w2)"
    and o2: "objs w2 = (objs w1)(obj \<mapsto> ob1\<lparr>length_f := length_f ob1 + of_nat (length (rev removed))\<rparr>)"
    and h2: "heap w2 = (heap w1)(data ob1 \<mapsto> P @ map Some (rev (rev removed)) @ T @ X)"
    by blast
  have "of_nat (length (rev removed)) = count" using lenR by (simp add: k_def)
  then have "ob1\<lparr>length_f := length_f ob1 + of_nat (length (rev removed))\<rparr> = ob"
    by (simp add: ob1_def)
  with o2 have "objs w2 = objs w" using assms(3) by (simp add: w1_def map_upd_triv)
  moreover from h2 have "heap w2 = heap w"
    using dec assms(4) by (simp add: w1_def ob1_def map_upd_triv)
  ultimately have same2: "objs w2 = objs w \<and> heap w2 = heap w" by simp
  have "\<exists>w'. insert_from obj index removed w1 = Some (True, w')
           \<and> objs w' = (objs w1)(obj \<mapsto> ob1\<lparr>length_f := length_f ob1 + of_nat (length removed)\<rparr>)
           \<and> heap w' = (heap w1)(data ob1 \<mapsto> P @ map Some removed @ T @ X)"
  proof (rule insert_from_into_slack[where t=t and J=J])
    show "obj \<noteq> NULL" by (rule assms(1))
    show "objs w1 obj = Some ob1" by (simp add: w1_def)
    show "data ob1 \<noteq> NULL" using nn by (simp add: ob1_def)
    show "heap w1 (data ob1) = Some (P @ T @ J @ X)" by (simp add: w1_def ob1_def)
    show "length P = unat index" using lenP by (simp add: i_def)
    show "unat (length_f ob1) = length P + t"
      using ar(5) ik lenP by (simp add: ob1_def t_def i_def k_def n_def)
    show "length T = Suc t" by (rule lenT)
    show "length J = length removed" using lenJ lenR by simp
    show "unat (capacity ob1) = length (P @ T @ J @ X)"
    proof -
      have "length (P @ T @ J @ X) = length blk"
        using lenP lenT lenJ ik nb by (simp add: X_def t_def)
      then show ?thesis using cap by (simp add: ob1_def)
    qed
  qed
  then obtain w3 where ins3: "insert_from obj index removed w1 = Some (True, w3)"
    and o3: "objs w3 = (objs w1)(obj \<mapsto> ob1\<lparr>length_f := length_f ob1 + of_nat (length removed)\<rparr>)"
    and h3: "heap w3 = (heap w1)(data ob1 \<mapsto> P @ map Some removed @ T @ X)"
    by blast
  have "of_nat (length removed) = count" using lenR by (simp add: k_def)
  then have "ob1\<lparr>length_f := length_f ob1 + of_nat (length removed)\<rparr> = ob"
    by (simp add: ob1_def)
  with o3 have "objs w3 = objs w" using assms(3) by (simp add: w1_def map_upd_triv)
  moreover from h3 have "heap w3 = heap w"
    using dec assms(4) by (simp add: w1_def ob1_def map_upd_triv)
  ultimately have same3: "objs w3 = objs w \<and> heap w3 = heap w" by simp
  show ?thesis using erase ins same2 ins3 same3 by blast
qed

theorem erase_then_insert_restores_witness:
  "\<exists>w1 w2 w3.
     cstr_erase 1 1 2
       \<lparr>objs = [1 \<mapsto> \<lparr>data = 1, length_f = 6, capacity = 7\<rparr>],
        heap = [1 \<mapsto> map Some ''abcdef'' @ [Some NUL]],
        brk = 2, alloc_plan = [], cs_log = []\<rparr> = Some (True, w1)
     \<and> insert_each 1 1 ''cb'' w1 = Some (True, w2)
     \<and> objs w2 = [1 \<mapsto> \<lparr>data = 1, length_f = 6, capacity = 7\<rparr>]
     \<and> heap w2 = [1 \<mapsto> map Some ''abcdef'' @ [Some NUL]]
     \<and> insert_from 1 1 ''bc'' w1 = Some (True, w3)
     \<and> objs w3 = [1 \<mapsto> \<lparr>data = 1, length_f = 6, capacity = 7\<rparr>]
     \<and> heap w3 = [1 \<mapsto> map Some ''abcdef'' @ [Some NUL]]"
  using erase_then_insert_restores
    [of 1 "\<lparr>objs = [1 \<mapsto> \<lparr>data = 1, length_f = 6, capacity = 7\<rparr>],
             heap = [1 \<mapsto> map Some ''abcdef'' @ [Some NUL]],
             brk = 2, alloc_plan = [], cs_log = []\<rparr>"
        "\<lparr>data = 1, length_f = 6, capacity = 7\<rparr>" "map Some ''abcdef'' @ [Some NUL]"
        1 2 "''bc''"]
  by (simp add: well_formed_def)

section \<open>The terminator after each operation\<close>

lemma load_eq:
  "load p i w =
     (if p = NULL then None
      else case heap w p of None \<Rightarrow> None
           | Some blk \<Rightarrow> if i < length blk then blk ! i else None)"
  by (auto simp: load_def load_cells_def hd_drop_conv_nth take_Suc_conv_app_nth
      split: option.splits)

lemma store_eq:
  "store p i c w =
     (if p = NULL then None
      else case heap w p of None \<Rightarrow> None
           | Some blk \<Rightarrow> if i < length blk
                          then Some (w\<lparr>heap := (heap w)(p \<mapsto> blk[i := Some c])\<rparr>) else None)"
  by (auto simp: store_def store_cells_def upd_conv_take_nth_drop split: option.splits)

lemma load_after_store:
  "store p i c w = Some w' \<Longrightarrow> load p i w' = Some c"
  by (auto simp: load_eq store_eq split: if_splits option.splits)

lemma terminated_frame:
  "heap w' = heap w \<Longrightarrow> objs w' = objs w \<Longrightarrow> terminated obj w' = terminated obj w"
  by (simp add: terminated_def load_eq split: option.splits)

lemma well_formed_terminated:
  "well_formed obj w \<Longrightarrow> terminated obj w"
  by (auto simp: well_formed_def terminated_def load_eq word_less_nat_alt split: option.splits)

lemma terminated_unlock [simp]: "terminated obj (cstr_unlock p w) = terminated obj w"
  by (rule terminated_frame) (simp_all add: cstr_unlock_def)

lemma terminated_lock [simp]: "terminated obj (cstr_lock p w) = terminated obj w"
  by (rule terminated_frame) (simp_all add: cstr_lock_def)

lemma terminated_put [simp]:
  "terminated obj (put obj ob w) = (load (data ob) (unat (length_f ob)) w = Some NUL)"
  by (simp add: terminated_def put_def load_eq)

lemma lock_fields [simp]:
  "objs (cstr_lock p w) = objs w" "heap (cstr_lock p w) = heap w" "brk (cstr_lock p w) = brk w"
  "alloc_plan (cstr_lock p w) = alloc_plan w"
  "objs (cstr_unlock p w) = objs w" "heap (cstr_unlock p w) = heap w" "brk (cstr_unlock p w) = brk w"
  "alloc_plan (cstr_unlock p w) = alloc_plan w"
  by (simp_all add: cstr_lock_def cstr_unlock_def)

lemma cstr_pop_back_terminated:
  assumes "cstr_pop_back obj w = Some (r, w')" "obj \<noteq> NULL" "well_formed obj w"
  shows "terminated obj w'"
  using assms well_formed_terminated[OF assms(3)]
  by (auto simp: cstr_pop_back_def bind_eq_Some_conv Let_def 
      dest: load_after_store split: if_splits)

lemma cstr_trim_terminated:
  assumes "cstr_trim obj w = Some (r, w')" "obj \<noteq> NULL" "well_formed obj w"
  shows "terminated obj w'"
  using assms well_formed_terminated[OF assms(3)]
  by (auto simp: cstr_trim_def bind_eq_Some_conv Let_def 
      dest: load_after_store split: if_splits)


lemma well_formed_frame:
  "heap w' = heap w \<Longrightarrow> objs w' = objs w \<Longrightarrow> brk w' = brk w
     \<Longrightarrow> well_formed obj w' = well_formed obj w"
  by (simp add: well_formed_def split: option.splits)

lemma well_formed_lock [simp]: "well_formed obj (cstr_lock p w) = well_formed obj w"
  by (rule well_formed_frame) simp_all

lemma well_formed_unlock [simp]: "well_formed obj (cstr_unlock p w) = well_formed obj w"
  by (rule well_formed_frame) simp_all

lemma well_formedD:
  assumes "well_formed obj w"
  obtains ob blk where "objs w obj = Some ob" "heap w (data ob) = Some blk"
    "data ob \<noteq> NULL" "data ob < brk w" "length blk = unat (capacity ob)"
    "length_f ob < capacity ob" "unat (length_f ob) < length blk"
    "list_all (\<lambda>c. c \<noteq> None) (take (unat (length_f ob)) blk)"
    "blk ! unat (length_f ob) = Some NUL"
  using assms
  by (auto simp: well_formed_def word_less_nat_alt split: option.splits)

lemma cstr_resize_well_formed:
  assumes "cstr_resize obj size' w = Some (r, w')" "obj \<noteq> NULL" "well_formed obj w"
    and "objs w obj = Some ob" "length_f ob < size'"
  shows "well_formed obj w'"
    and "\<exists>ob'. objs w' obj = Some ob' \<and> length_f ob' = length_f ob
            \<and> capacity ob' = (if r then size' else capacity ob)"
proof -
  from assms(3,4) obtain blk where blk: "heap w (data ob) = Some blk"
    and nn: "data ob \<noteq> NULL" and fresh: "data ob < brk w"
    and cap: "length blk = unat (capacity ob)" and lt: "unat (length_f ob) < length blk"
    and init: "list_all (\<lambda>c. c \<noteq> None) (take (unat (length_f ob)) blk)"
    and nul: "blk ! unat (length_f ob) = Some NUL"
    by (auto elim!: well_formedD)
  have sz: "size' \<noteq> 0" using assms(5) by auto
  have ls: "unat (length_f ob) < unat size'" using assms(5) by (simp add: word_less_nat_alt)
  show "well_formed obj w'"
    using assms blk nn fresh cap lt init nul sz ls
    by (auto simp: cstr_resize_def realloc_def malloc_def put_def bind_eq_Some_conv Let_def
          well_formed_def nth_append word_less_nat_alt
        split: if_splits list.splits bool.splits)
  show "\<exists>ob'. objs w' obj = Some ob' \<and> length_f ob' = length_f ob
            \<and> capacity ob' = (if r then size' else capacity ob)"
    using assms blk nn fresh sz
    by (auto simp: cstr_resize_def realloc_def malloc_def put_def bind_eq_Some_conv Let_def
        split: if_splits list.splits bool.splits)
qed

lemma cstr_resize_terminated:
  assumes "cstr_resize obj size' w = Some (r, w')" "obj \<noteq> NULL" "well_formed obj w"
    and "objs w obj = Some ob" "length_f ob < size'"
  shows "terminated obj w'"
  using cstr_resize_well_formed(1)[OF assms] by (rule well_formed_terminated)

lemma cstr_shrink_to_fit_terminated:
  assumes "cstr_shrink_to_fit obj w = Some (r, w')" "obj \<noteq> NULL" "well_formed obj w"
  shows "terminated obj w'"
proof -
  from assms(3) obtain ob where ob: "objs w obj = Some ob" and lt: "length_f ob < capacity ob"
    by (auto elim!: well_formedD)
  from lt have "unat (length_f ob + 1) = Suc (unat (length_f ob))"
    by (intro unat_inc_bounded) (simp add: word_less_nat_alt)
  then have "length_f ob < length_f ob + 1" by (simp add: word_less_nat_alt)
  with assms ob show ?thesis
    by (auto simp: cstr_shrink_to_fit_def bind_eq_Some_conv Let_def
        dest!: cstr_resize_terminated[where ob=ob] split: if_splits)
qed

lemma cstr_clear_terminated:
  assumes "cstr_clear obj w = Some (r, w')" "obj \<noteq> NULL" "well_formed obj w"
  shows "terminated obj w'"
  using assms
  by (auto simp: cstr_clear_def SecureZeroMemory_def store_cells_def bind_eq_Some_conv Let_def
        put_def terminated_def load_eq word_less_nat_alt
      elim!: well_formedD split: if_splits option.splits)


lemma grow_arith:
  fixes len cap :: "'a::len word"
  assumes "len < cap"
  shows "unat (len + 1) = Suc (unat len)"
    and "len + 2 \<noteq> 0 \<Longrightarrow> len < len + 2"
    and "cap < req \<Longrightarrow> len < req"
proof -
  show l1: "unat (len + 1) = Suc (unat len)"
    using assms by (intro unat_inc_bounded) (simp add: word_less_nat_alt)
  show "len < len + 2" if "len + 2 \<noteq> 0"
  proof -
    have "1 + (len + 1) \<noteq> 0" using that by (simp add: add.commute)
    then have "unat (1 + (len + 1)) = Suc (unat (len + 1))" by (rule unatSuc)
    moreover have "1 + (len + 1) = len + 2" by simp
    ultimately have "unat (len + 2) = Suc (Suc (unat len))" using l1 by simp
    then show ?thesis by (simp add: word_less_nat_alt)
  qed
  show "len < req" if "cap < req" using assms that by simp
qed

lemma cstr_push_back_char_terminated:
  assumes "cstr_push_back_char obj chr w = Some (r, w')" "obj \<noteq> NULL" "well_formed obj w"
    and "objs w obj = Some ob" "length_f ob + 2 \<noteq> 0"
  shows "terminated obj w'"
proof -
  from assms(3,4) have lt: "length_f ob < capacity ob" by (auto elim!: well_formedD)
  note g = grow_arith(2)[OF lt assms(5)]
  show ?thesis
    using assms(1-4) well_formed_terminated[OF assms(3)] g
    by (auto simp: cstr_push_back_char_def bind_eq_Some_conv Let_def
        dest: load_after_store cstr_resize_terminated[where ob=ob] split: if_splits)
qed

lemma cstr_append_cstr_terminated:
  assumes "cstr_append_cstr obj obj2 w = Some (r, w')" "obj \<noteq> NULL" "well_formed obj w"
  shows "terminated obj w'"
proof -
  from assms(3) obtain ob where ob: "objs w obj = Some ob" and lt: "length_f ob < capacity ob"
    by (auto elim!: well_formedD)
  note g = grow_arith(3)[OF lt]
  show ?thesis
    using assms ob well_formed_terminated[OF assms(3)] g
    by (auto simp: cstr_append_cstr_def bind_eq_Some_conv Let_def
        dest: load_after_store cstr_resize_terminated[where ob=ob] split: if_splits)
qed

lemma cstr_append_chars_terminated:
  assumes "cstr_append_chars obj str w = Some (r, w')" "obj \<noteq> NULL" "well_formed obj w"
  shows "terminated obj w'"
proof -
  from assms(3) obtain ob where ob: "objs w obj = Some ob" and lt: "length_f ob < capacity ob"
    by (auto elim!: well_formedD)
  note g = grow_arith(3)[OF lt]
  show ?thesis
    using assms ob well_formed_terminated[OF assms(3)] g
    by (auto simp: cstr_append_chars_def bind_eq_Some_conv Let_def
        dest: load_after_store cstr_resize_terminated[where ob=ob] split: if_splits option.splits)
qed


lemma cstr_erase_clamp:
  assumes "objs w obj = Some ob" "index < length_f ob" "length_f ob - index < count"
  shows "cstr_erase obj index count w = cstr_erase obj index (length_f ob - index) w"
proof -
  have "length_f ob - index \<noteq> 0" using assms(2) by auto
  moreover have "count \<noteq> 0" using assms(3) by auto
  ultimately show ?thesis
    using assms by (simp add: cstr_erase_def Let_def)
qed

lemma cstr_erase_terminated:
  assumes "cstr_erase obj index count w = Some (r, w')" "obj \<noteq> NULL" "well_formed obj w"
  shows "terminated obj w'"
proof -
  from assms(3) obtain ob blk where ob: "objs w obj = Some ob"
    and blk: "heap w (data ob) = Some blk" and nn: "data ob \<noteq> NULL"
    and lt: "unat (length_f ob) < length blk" and nul: "blk ! unat (length_f ob) = Some NUL"
    by (auto elim!: well_formedD)
  show ?thesis
  proof (cases "index < length_f ob \<and> count \<noteq> 0")
    case False
    then show ?thesis
      using assms ob well_formed_terminated[OF assms(3)]
      by (auto simp: cstr_erase_def bind_eq_Some_conv Let_def split: if_splits)
  next
    case True
    define k where "k = (if length_f ob - index < count then length_f ob - index else count)"
    have run: "cstr_erase obj index count w = cstr_erase obj index k w"
      using True ob by (auto simp: k_def cstr_erase_clamp)
    have k0: "0 < k" using True by (auto simp: k_def word_greater_zero_iff)
    have kb: "k \<le> length_f ob - index" by (simp add: k_def not_less)
    have idx: "index < length_f ob" using True by simp
    note ar = erase_arith[OF idx k0 kb]
    have pos: "unat (length_f ob) - unat k - unat index < Suc (unat (length_f ob) - (unat index + unat k))"
      by simp
    have at: "unat index + unat k + (unat (length_f ob) - unat k - unat index) = unat (length_f ob)"
      using ar by linarith
    have ge: "unat index \<le> unat (length_f ob) - unat k" using ar by linarith
    show ?thesis
      using assms(1) nn lt nul ar(5) ge pos at
      unfolding run cstr_erase_step[OF assms(2) ob nn blk idx k0 kb lt]
      by (auto simp: terminated_def load_eq nth_append)
  qed
qed

lemma cstr_swap_terminated:
  assumes "cstr_swap obj obj2 w = Some (r, w')" "obj \<noteq> NULL" "obj2 \<noteq> NULL"
    and "well_formed obj w" "well_formed obj2 w"
  shows "terminated obj w' \<and> terminated obj2 w'"
proof -
  from assms(4) obtain a where a: "objs w obj = Some a" by (auto elim!: well_formedD)
  from assms(5) obtain b where b: "objs w obj2 = Some b" by (auto elim!: well_formedD)
  show ?thesis
    using assms(1) well_formed_terminated[OF assms(4)] well_formed_terminated[OF assms(5)] a b
    unfolding cstr_swap_step[OF assms(2,3) a b]
    by (auto simp: terminated_def load_eq split: if_splits)
qed


lemma insert_tail_terminated:
  assumes "well_formed obj w1" "objs w1 obj = Some ob1" "index \<le> length_f ob1"
    and "memmove (data ob1) (unat index + 1) (data ob1) (unat index)
           (length_f ob1 - index + 1) w1 = Some w2"
    and "store (data ob1) (unat index) chr w2 = Some w3"
  shows "load (data ob1) (unat (length_f ob1 + 1)) w3 = Some NUL"
proof -
  from assms(1,2) obtain blk where blk: "heap w1 (data ob1) = Some blk"
    and nn: "data ob1 \<noteq> NULL" and lt: "length_f ob1 < capacity ob1"
    and n_blk: "unat (length_f ob1) < length blk"
    and nul: "blk ! unat (length_f ob1) = Some NUL"
    by (auto elim!: well_formedD)
  have i: "unat index \<le> unat (length_f ob1)" using assms(3) by (simp add: word_le_nat_alt)
  have l1: "unat (length_f ob1 + 1) = Suc (unat (length_f ob1))"
    by (rule grow_arith(1)[OF lt])
  have s: "unat (length_f ob1 - index) = unat (length_f ob1) - unat index"
    using assms(3) by (rule unat_sub)
  have "unat (length_f ob1 - index) < unat (capacity ob1)"
    using s lt by (simp add: word_less_nat_alt)
  then have m: "unat (length_f ob1 - index + 1) = Suc (unat (length_f ob1) - unat index)"
    using s unat_inc_bounded by metis
  have at: "unat index + (unat (length_f ob1) - unat index) = unat (length_f ob1)"
    using i by simp
  show ?thesis
    using assms(4,5) blk nn i n_blk nul at
    by (auto simp: memmove_def load_cells_def store_cells_def store_eq load_eq m l1
          bind_eq_Some_conv nth_append nth_list_update
        split: if_splits)
qed

lemma cstr_insert_terminated:
  assumes "cstr_insert obj index chr w = Some (r, w')" "obj \<noteq> NULL" "well_formed obj w"
  shows "terminated obj w'"
proof -
  from assms(3) obtain ob where ob: "objs w obj = Some ob" and lt: "length_f ob < capacity ob"
    by (auto elim!: well_formedD)
  show ?thesis
  proof (cases "index > length_f ob")
    case True
    then show ?thesis
      using assms ob well_formed_terminated[OF assms(3)]
      by (auto simp: cstr_insert_def bind_eq_Some_conv Let_def)
  next
    case False
    then have idx: "index \<le> length_f ob" by simp
    show ?thesis
    proof (cases "capacity ob < length_f ob + 1 + 1")
      case nogrow: False
      from assms(1,2) ob False nogrow obtain w2 w3 where
        mv: "memmove (data ob) (unat index + 1) (data ob) (unat index)
               (length_f ob - index + 1) (cstr_lock obj w) = Some w2"
        and st: "store (data ob) (unat index) chr w2 = Some w3"
        and w': "w' = cstr_unlock obj (put obj (ob\<lparr>length_f := length_f ob + 1\<rparr>) w3)"
        by (auto simp: cstr_insert_def bind_eq_Some_conv Let_def)
      have "load (data ob) (unat (length_f ob + 1)) w3 = Some NUL"
        by (rule insert_tail_terminated[where obj=obj, OF _ _ idx mv st])
           (simp_all add: assms(3) ob)
      then show ?thesis by (simp add: w')
    next
      case grow: True
      from assms(1,2) ob False grow obtain ok w1 where
        rs: "cstr_resize obj (length_f ob + 1 + 1) (cstr_lock obj w) = Some (ok, w1)"
        by (auto simp: cstr_insert_def bind_eq_Some_conv Let_def)
      have big: "length_f ob < length_f ob + 1 + 1"
        using grow_arith(3)[OF lt grow] .
      have wf1: "well_formed obj w1"
        by (rule cstr_resize_well_formed(1)[OF rs assms(2) _ _ big]) (simp_all add: assms(3) ob)
      obtain ob1 where ob1: "objs w1 obj = Some ob1" and len1: "length_f ob1 = length_f ob"
        using cstr_resize_well_formed(2)[OF rs assms(2) _ _ big] assms(3) ob by auto
      show ?thesis
      proof (cases ok)
        case False
        with assms(1,2) ob \<open>\<not> length_f ob < index\<close> grow rs have "w' = cstr_unlock obj w1"
          by (auto simp: cstr_insert_def bind_eq_Some_conv Let_def)
        then show ?thesis using well_formed_terminated[OF wf1] by simp
      next
        case True
        with assms(1,2) ob \<open>\<not> length_f ob < index\<close> grow rs ob1 len1 obtain w2 w3 where
          mv: "memmove (data ob1) (unat index + 1) (data ob1) (unat index)
                 (length_f ob1 - index + 1) w1 = Some w2"
          and st: "store (data ob1) (unat index) chr w2 = Some w3"
          and w': "w' = cstr_unlock obj (put obj (ob1\<lparr>length_f := length_f ob1 + 1\<rparr>) w3)"
          by (auto simp: cstr_insert_def bind_eq_Some_conv Let_def)
        have "load (data ob1) (unat (length_f ob1 + 1)) w3 = Some NUL"
          by (rule insert_tail_terminated[OF wf1 ob1 _ mv st]) (simp add: len1 idx)
        then show ?thesis by (simp add: w')
      qed
    qed
  qed
qed

lemma malloc_succeeds:
  assumes "next_alloc_succeeds w"
  shows "malloc n w = (brk w, w\<lparr>heap := (heap w)(brk w \<mapsto> replicate (unat n) None),
                               brk := Suc (brk w), alloc_plan := tl (alloc_plan w)\<rparr>)"
  using assms
  by (auto simp: malloc_def next_alloc_succeeds_def split: list.splits bool.splits)

lemma cstr_create_terminated:
  "cstr_create obj w = Some (True, w') \<Longrightarrow> terminated obj w'"
  by (auto simp: cstr_create_def bind_eq_Some_conv InitializeCriticalSection_def
        terminated_def put_def load_eq
      dest!: load_after_store split: if_splits prod.splits)

lemma cstr_create_from_buffer_terminated:
  "cstr_create_from_buffer obj buffer size' w = Some (True, w') \<Longrightarrow> terminated obj w'"
  by (auto simp: cstr_create_from_buffer_def bind_eq_Some_conv InitializeCriticalSection_def
        terminated_def put_def load_eq
      dest!: load_after_store split: if_splits prod.splits option.splits)

lemma scan_str_terminated:
  "NUL \<notin> set s \<Longrightarrow> scan_str (map Some s @ Some NUL # rest) = Some s"
  by (induction s) auto

lemma c_chars_id: "NUL \<notin> set s \<Longrightarrow> c_chars s = s"
  by (auto simp: c_chars_def takeWhile_eq_all_conv)

lemma c_chars_no_NUL: "NUL \<notin> set (c_chars s)"
  unfolding c_chars_def by (metis (mono_tags, lifting) set_takeWhileD)

lemma cstr_strdup_succeeds:
  assumes "next_alloc_succeeds w" "length (c_chars str) < 2 ^ 64 - 1"
  shows "cstr_strdup str w =
           Some (brk w, w\<lparr>heap := (heap w)(brk w \<mapsto> map Some (c_chars str) @ [Some NUL]),
                            brk := Suc (brk w), alloc_plan := tl (alloc_plan w)\<rparr>)"
    and "unat (strlen str) = length (c_chars str)"
proof -
  have L: "unat (of_nat (length (c_chars str)) :: size_t) = length (c_chars str)"
    using assms(2) by (simp add: unat_of_nat)
  then show "unat (strlen str) = length (c_chars str)" by (simp add: strlen_def)
  have "unat (of_nat (length (c_chars str)) :: size_t) + unat (1 :: size_t) < 2 ^ LENGTH(64)"
    using assms(2) L by simp
  then have "unat (of_nat (length (c_chars str)) + 1 :: size_t)
               = unat (of_nat (length (c_chars str)) :: size_t) + unat (1 :: size_t)"
    by (simp only: unat_add_lem)
  then have L1: "unat (strlen str + 1) = Suc (length (c_chars str))"
    using L by (simp add: strlen_def)
  have nz: "brk w \<noteq> NULL" using assms(1) by (simp add: next_alloc_succeeds_def)
  show "cstr_strdup str w =
           Some (brk w, w\<lparr>heap := (heap w)(brk w \<mapsto> map Some (c_chars str) @ [Some NUL]),
                            brk := Suc (brk w), alloc_plan := tl (alloc_plan w)\<rparr>)"
    using nz by (simp add: cstr_strdup_def Let_def malloc_succeeds[OF assms(1)] L1 store_cells_def)
qed

lemma cstr_create_from_chars_terminated:
  assumes "obj \<noteq> NULL" "next_alloc_succeeds w" "length (c_chars str) < 2 ^ 64 - 1"
  shows "\<exists>w'. cstr_create_from_chars obj (Some str) w = Some (True, w') \<and> terminated obj w'"
  using assms(1) cstr_strdup_succeeds(2)[OF assms(2,3)] assms(2)
  by (simp add: cstr_create_from_chars_def cstr_strdup_succeeds(1)[OF assms(2,3)]
      InitializeCriticalSection_def terminated_def put_def load_eq nth_append
      next_alloc_succeeds_def)


lemma those_eq_Some: "those xs = Some ys \<Longrightarrow> xs = map Some ys"
  by (induction xs arbitrary: ys) (auto split: option.splits)

lemma those_map_Some: "those (map Some ys) = Some ys"
  by (induction ys) auto

lemma well_formed_contents:
  assumes "well_formed obj w" "objs w obj = Some ob" "heap w (data ob) = Some blk"
    and "contents obj w = Some s"
  shows "length s = unat (length_f ob)"
    and "blk = map Some s @ Some NUL # drop (Suc (unat (length_f ob))) blk"
proof -
  from assms(1-3) have nn: "data ob \<noteq> NULL" and lt: "unat (length_f ob) < length blk"
    and nul: "blk ! unat (length_f ob) = Some NUL"
    by (auto elim!: well_formedD)
  from assms(2-4) nn lt have "those (take (unat (length_f ob)) blk) = Some s"
    by (simp add: contents_def load_cells_def)
  then have tk: "take (unat (length_f ob)) blk = map Some s" by (rule those_eq_Some)
  then have "length (take (unat (length_f ob)) blk) = length s" by simp
  then show "length s = unat (length_f ob)" using lt by simp
  have "blk = take (unat (length_f ob)) blk @ blk ! unat (length_f ob)
                # drop (Suc (unat (length_f ob))) blk"
    using lt by (rule id_take_nth_drop)
  then show "blk = map Some s @ Some NUL # drop (Suc (unat (length_f ob))) blk"
    using tk nul by simp
qed

lemma cstr_create_from_cstr_copies:
  assumes "obj \<noteq> NULL" "obj2 \<noteq> NULL" "well_formed obj2 w" "contents obj2 w = Some s"
    and "NUL \<notin> set s" "next_alloc_succeeds w"
  shows "\<exists>w'. cstr_create_from_cstr obj obj2 w = Some (True, w')
           \<and> terminated obj w' \<and> contents obj w' = Some s"
proof -
  from assms(3) obtain ob2 blk where ob2: "objs w obj2 = Some ob2"
    and blk: "heap w (data ob2) = Some blk" and nn: "data ob2 \<noteq> NULL"
    and lt: "length_f ob2 < capacity ob2"
    by (auto elim!: well_formedD)
  note c = well_formed_contents[OF assms(3) ob2 blk assms(4)]
  have str: "c_str (data ob2) w = Some s"
    using nn blk scan_str_terminated[OF assms(5), of "drop (Suc (unat (length_f ob2))) blk"] c(2)
    by (simp add: c_str_def)
  have cc: "c_chars s = s" using assms(5) by (rule c_chars_id)
  have "unat (capacity ob2) < 2 ^ LENGTH(64)" by (rule unsigned_less)
  then have small: "length (c_chars s) < 2 ^ 64 - 1"
    using c(1) lt cc by (simp add: word_less_nat_alt)
  have nz: "brk w \<noteq> NULL" using assms(6) by (simp add: next_alloc_succeeds_def)
  show ?thesis
    using assms(1,2) ob2 str nz c(1)
    by (simp add: cstr_create_from_cstr_def cstr_strdup_succeeds(1)[OF assms(6) small] cc
        InitializeCriticalSection_def terminated_def put_def load_eq nth_append
        contents_def load_cells_def those_map_Some)
qed

lemma push_no_wrap:
  fixes len cap :: "'a::len word"
  assumes "len < cap" "cap \<noteq> - 1"
  shows "len + 2 \<noteq> 0"
proof
  assume z: "len + 2 = 0"
  have l1: "unat (len + 1) = Suc (unat len)" by (rule grow_arith(1)[OF assms(1)])
  have "len + 1 + 1 = 0" using z by (simp add: add.assoc)
  then have "len + 1 = - 1" by (simp add: add_eq_0_iff)
  moreover have "len + 1 \<le> cap" using l1 assms(1) by (simp add: word_le_nat_alt word_less_nat_alt)
  ultimately have "cap = - 1" by (metis word_order.extremum_unique)
  with assms(2) show False by simp
qed

text \<open>
  C2, as the code has it.  The byte at offset \<^verbatim>\<open>length\<close> is the terminator
  \<^item> after a successful \<^verbatim>\<open>cstr_create\<close> and \<^verbatim>\<open>cstr_create_from_buffer\<close>;
  \<^item> after \<^verbatim>\<open>cstr_create_from_chars\<close> when its allocation succeeds;
  \<^item> after \<^verbatim>\<open>cstr_create_from_cstr\<close> from a well-formed source whose content has no
    zero byte, when its allocation succeeds (the copy then has the same content);
  \<^item> on a well-formed buffer, after every completed \<^verbatim>\<open>cstr_shrink_to_fit\<close>,
    \<^verbatim>\<open>cstr_clear\<close>, \<^verbatim>\<open>cstr_pop_back\<close>, \<^verbatim>\<open>cstr_append_cstr\<close>, \<^verbatim>\<open>cstr_append_chars\<close>,
    \<^verbatim>\<open>cstr_insert\<close>, \<^verbatim>\<open>cstr_erase\<close> and \<^verbatim>\<open>cstr_trim\<close>, whatever they return, after
    \<^verbatim>\<open>cstr_push_back_char\<close> when the capacity is not \<^verbatim>\<open>SIZE_MAX\<close>, and on both buffers
    after \<^verbatim>\<open>cstr_swap\<close> of two well-formed buffers;
  \<^item> after \<^verbatim>\<open>cstr_resize\<close> of a well-formed buffer only when the new size exceeds the
    length: keeping the length below the new capacity is left to the caller.
\<close>

theorem terminator_after_each_operation:
  "(\<forall>w'. cstr_create obj w = Some (True, w') \<longrightarrow> terminated obj w')
   \<and> (\<forall>w'. cstr_create_from_buffer obj buffer n w = Some (True, w') \<longrightarrow> terminated obj w')
   \<and> (obj \<noteq> NULL \<and> next_alloc_succeeds w \<and> length (c_chars str) < 2 ^ 64 - 1 \<longrightarrow>
        (\<exists>w'. cstr_create_from_chars obj (Some str) w = Some (True, w') \<and> terminated obj w'))
   \<and> (obj \<noteq> NULL \<and> obj2 \<noteq> NULL \<and> well_formed obj2 w \<and> contents obj2 w = Some s
        \<and> NUL \<notin> set s \<and> next_alloc_succeeds w \<longrightarrow>
        (\<exists>w'. cstr_create_from_cstr obj obj2 w = Some (True, w') \<and> terminated obj w'
              \<and> contents obj w' = Some s))
   \<and> (obj \<noteq> NULL \<and> well_formed obj w \<longrightarrow>
        (\<forall>r w' ob. objs w obj = Some ob \<and> length_f ob < n \<and> cstr_resize obj n w = Some (r, w')
            \<longrightarrow> terminated obj w')
        \<and> (\<forall>r w'. cstr_shrink_to_fit obj w = Some (r, w') \<longrightarrow> terminated obj w')
        \<and> (\<forall>r w'. cstr_clear obj w = Some (r, w') \<longrightarrow> terminated obj w')
        \<and> (\<forall>r w' ob. objs w obj = Some ob \<and> capacity ob \<noteq> invalid
              \<and> cstr_push_back_char obj chr w = Some (r, w') \<longrightarrow> terminated obj w')
        \<and> (\<forall>r w'. cstr_pop_back obj w = Some (r, w') \<longrightarrow> terminated obj w')
        \<and> (\<forall>r w'. cstr_append_cstr obj obj2 w = Some (r, w') \<longrightarrow> terminated obj w')
        \<and> (\<forall>r w'. cstr_append_chars obj data' w = Some (r, w') \<longrightarrow> terminated obj w')
        \<and> (\<forall>r w'. cstr_insert obj index chr w = Some (r, w') \<longrightarrow> terminated obj w')
        \<and> (\<forall>r w'. cstr_erase obj index count w = Some (r, w') \<longrightarrow> terminated obj w')
        \<and> (\<forall>r w'. cstr_trim obj w = Some (r, w') \<longrightarrow> terminated obj w')
        \<and> (\<forall>r w'. obj2 \<noteq> NULL \<and> well_formed obj2 w \<and> cstr_swap obj obj2 w = Some (r, w')
              \<longrightarrow> terminated obj w' \<and> terminated obj2 w'))"
proof (intro conjI allI impI; (elim conjE)?)
  fix w' assume "cstr_create obj w = Some (True, w')"
  then show "terminated obj w'" by (rule cstr_create_terminated)
next
  fix w' assume "cstr_create_from_buffer obj buffer n w = Some (True, w')"
  then show "terminated obj w'" by (rule cstr_create_from_buffer_terminated)
next
  assume "obj \<noteq> NULL" "next_alloc_succeeds w" "length (c_chars str) < 2 ^ 64 - 1"
  then show "\<exists>w'. cstr_create_from_chars obj (Some str) w = Some (True, w') \<and> terminated obj w'"
    by (rule cstr_create_from_chars_terminated)
next
  assume "obj \<noteq> NULL" "obj2 \<noteq> NULL" "well_formed obj2 w" "contents obj2 w = Some s"
    "NUL \<notin> set s" "next_alloc_succeeds w"
  then show "\<exists>w'. cstr_create_from_cstr obj obj2 w = Some (True, w') \<and> terminated obj w'
              \<and> contents obj w' = Some s"
    by (rule cstr_create_from_cstr_copies)
next
  fix r w' ob
  assume "obj \<noteq> NULL" "well_formed obj w" "objs w obj = Some ob" "length_f ob < n"
    "cstr_resize obj n w = Some (r, w')"
  then show "terminated obj w'" by (intro cstr_resize_terminated)
next
  fix r w' assume "obj \<noteq> NULL" "well_formed obj w" "cstr_shrink_to_fit obj w = Some (r, w')"
  then show "terminated obj w'" by (intro cstr_shrink_to_fit_terminated)
next
  fix r w' assume "obj \<noteq> NULL" "well_formed obj w" "cstr_clear obj w = Some (r, w')"
  then show "terminated obj w'" by (intro cstr_clear_terminated)
next
  fix r w' ob
  assume a: "obj \<noteq> NULL" "well_formed obj w" "objs w obj = Some ob" "capacity ob \<noteq> invalid"
    "cstr_push_back_char obj chr w = Some (r, w')"
  then have "length_f ob < capacity ob" by (auto elim!: well_formedD)
  then have "length_f ob + 2 \<noteq> 0" using a(4) by (intro push_no_wrap) (simp_all add: invalid_def)
  with a show "terminated obj w'" by (intro cstr_push_back_char_terminated)
next
  fix r w' assume "obj \<noteq> NULL" "well_formed obj w" "cstr_pop_back obj w = Some (r, w')"
  then show "terminated obj w'" by (intro cstr_pop_back_terminated)
next
  fix r w' assume "obj \<noteq> NULL" "well_formed obj w" "cstr_append_cstr obj obj2 w = Some (r, w')"
  then show "terminated obj w'" by (intro cstr_append_cstr_terminated)
next
  fix r w' assume "obj \<noteq> NULL" "well_formed obj w" "cstr_append_chars obj data' w = Some (r, w')"
  then show "terminated obj w'" by (intro cstr_append_chars_terminated)
next
  fix r w' assume "obj \<noteq> NULL" "well_formed obj w" "cstr_insert obj index chr w = Some (r, w')"
  then show "terminated obj w'" by (intro cstr_insert_terminated)
next
  fix r w' assume "obj \<noteq> NULL" "well_formed obj w" "cstr_erase obj index count w = Some (r, w')"
  then show "terminated obj w'" by (intro cstr_erase_terminated)
next
  fix r w' assume "obj \<noteq> NULL" "well_formed obj w" "cstr_trim obj w = Some (r, w')"
  then show "terminated obj w'" by (intro cstr_trim_terminated)
next
  fix r w' assume a: "obj \<noteq> NULL" "well_formed obj w" "obj2 \<noteq> NULL" "well_formed obj2 w"
    "cstr_swap obj obj2 w = Some (r, w')"
  then show "terminated obj w'" using cstr_swap_terminated by blast
next
  fix r w' assume a: "obj \<noteq> NULL" "well_formed obj w" "obj2 \<noteq> NULL" "well_formed obj2 w"
    "cstr_swap obj obj2 w = Some (r, w')"
  then show "terminated obj2 w'" using cstr_swap_terminated by blast
qed

text \<open>The operations on the store \<open>two_buffers\<close>: each completes and leaves the
  terminator in place.\<close>

theorem terminator_after_each_operation_witness:
  "(\<exists>w'. cstr_create 1 two_buffers = Some (True, w') \<and> terminated 1 w')
   \<and> (\<exists>w'. cstr_create_from_buffer 1 (Some ''hello'') 5 two_buffers = Some (True, w')
          \<and> terminated 1 w')
   \<and> (\<exists>w'. cstr_create_from_chars 1 (Some ''hi'') two_buffers = Some (True, w')
          \<and> terminated 1 w')
   \<and> (\<exists>w'. cstr_create_from_cstr 1 2 two_buffers = Some (True, w') \<and> terminated 1 w'
          \<and> contents 1 w' = Some ''x'')
   \<and> (\<exists>w'. cstr_resize 1 5 two_buffers = Some (True, w') \<and> terminated 1 w')
   \<and> (\<exists>w'. cstr_shrink_to_fit 1 two_buffers = Some (True, w') \<and> terminated 1 w')
   \<and> (\<exists>w'. cstr_clear 1 two_buffers = Some (True, w') \<and> terminated 1 w')
   \<and> (\<exists>w'. cstr_push_back_char 1 (CHR ''c'') two_buffers = Some (True, w') \<and> terminated 1 w')
   \<and> (\<exists>w'. cstr_pop_back 1 two_buffers = Some (True, w') \<and> terminated 1 w')
   \<and> (\<exists>w'. cstr_append_cstr 1 2 two_buffers = Some (True, w') \<and> terminated 1 w')
   \<and> (\<exists>w'. cstr_append_chars 1 (Some ''cd'') two_buffers = Some (True, w') \<and> terminated 1 w')
   \<and> (\<exists>w'. cstr_insert 1 1 (CHR ''c'') two_buffers = Some (True, w') \<and> terminated 1 w')
   \<and> (\<exists>w'. cstr_erase 1 1 1 two_buffers = Some (True, w') \<and> terminated 1 w')
   \<and> (\<exists>w'. cstr_trim 1 two_buffers = Some (True, w') \<and> terminated 1 w')
   \<and> (\<exists>w'. cstr_swap 1 2 two_buffers = Some (True, w') \<and> terminated 1 w' \<and> terminated 2 w')"
  using terminator_after_each_operation
    [where obj = 1 and w = two_buffers and buffer = "Some ''hello''" and n = 5 and str = "''hi''"
       and ?obj2.0 = 2 and s = "''x''" and chr = "CHR ''c''" and data' = "Some ''cd''"
       and index = 1 and count = 1]
  by (simp add: two_buffers_def runtime_defs next_alloc_succeeds_def well_formed_def
      terminated_def invalid_def
      cstr_create_def cstr_create_from_buffer_def cstr_create_from_chars_def
      cstr_create_from_cstr_def cstr_resize_def cstr_shrink_to_fit_def cstr_clear_def
      cstr_push_back_char_def cstr_pop_back_def cstr_append_cstr_def cstr_append_chars_def
      cstr_insert_def cstr_erase_def cstr_trim_def cstr_swap_def
      trim_start.simps trim_end.simps Let_def word_le_nat_alt word_less_nat_alt)

text \<open>
  The claim counts \<^verbatim>\<open>cstr_resize\<close> among the operations that keep the terminator at
  offset \<^verbatim>\<open>length\<close>.  Resizing the buffer \<^verbatim>\<open>"abc"\<close> to 2 bytes succeeds and leaves length
  3 over a block of 2 bytes: offset 3 is outside the block.
\<close>

theorem cstr_resize_drops_terminator_counterexample:
  "(do { (ok, w) \<leftarrow> cstr_create_from_chars 1 (Some ''abc'') world0;
         (ok, w) \<leftarrow> cstr_resize 1 2 w;
         (len, w) \<leftarrow> cstr_length 1 w;
         Some (ok, len, allocated 1 w, terminated 1 w) })
     = Some (True, 3, Some 2, False)"
  by (simp add: runtime_defs cstr_create_from_chars_def cstr_resize_def cstr_length_def
      terminated_def Let_def)

section \<open>What the tokenizers compute\<close>

text \<open>The scans against the content of a well-formed buffer: the block starts
  with the content bytes \<open>bs\<close>, and \<open>len\<close> is their number.\<close>

lemma load_content:
  assumes "p \<noteq> NULL" "heap w p = Some (map Some bs @ rest)" "i < length bs"
  shows "load p i w = Some (bs ! i)"
  using assms by (simp add: load_eq nth_append)

lemma skip_delims_spec:
  assumes "p \<noteq> NULL" "heap w p = Some (map Some bs @ rest)" "length bs = unat len" "pos \<le> len"
  shows "\<exists>r. skip_delims ds p len pos w = Some r \<and> r \<le> len
           \<and> unat r = unat pos + length (takeWhile (strchr ds) (drop (unat pos) bs))"
  using assms
proof (induction ds p len pos w rule: skip_delims.induct)
  case (1 ds p len pos w)
  show ?case
  proof (cases "pos < len")
    case False
    with "1.prems" have "unat len \<le> unat pos" by (simp add: word_le_nat_alt word_less_nat_alt)
    with False "1.prems" show ?thesis by (simp add: skip_delims.simps)
  next
    case True
    then have i: "unat pos < length bs" using "1.prems"(3) by (simp add: word_less_nat_alt)
    have ld: "load p (unat pos) w = Some (bs ! unat pos)"
      using "1.prems"(1,2) i by (rule load_content)
    have dr: "drop (unat pos) bs = bs ! unat pos # drop (Suc (unat pos)) bs"
      using i by (simp add: Cons_nth_drop_Suc)
    have suc: "unat (pos + 1) = Suc (unat pos)"
      using True by (intro unat_inc_bounded) (simp add: word_less_nat_alt)
    show ?thesis
    proof (cases "strchr ds (bs ! unat pos)")
      case False
      with True ld dr "1.prems"(4) show ?thesis by (simp add: skip_delims.simps)
    next
      case d: True
      have le: "pos + 1 \<le> len" using True suc by (simp add: word_le_nat_alt word_less_nat_alt)
      from "1.IH"[OF True ld d "1.prems"(1,2,3) le]
      obtain r where "skip_delims ds p len (pos + 1) w = Some r" "r \<le> len"
        "unat r = unat (pos + 1) + length (takeWhile (strchr ds) (drop (unat (pos + 1)) bs))"
        by blast
      with True ld d dr suc show ?thesis
        by (subst skip_delims.simps) simp
    qed
  qed
qed

lemma scan_token_spec:
  assumes "p \<noteq> NULL" "heap w p = Some (map Some bs @ rest)" "length bs = unat len" "pos \<le> len"
  shows "\<exists>r. scan_token ds p len pos w = Some r \<and> r \<le> len
           \<and> unat r = unat pos + length (takeWhile (\<lambda>c. \<not> strchr ds c) (drop (unat pos) bs))"
  using assms
proof (induction ds p len pos w rule: scan_token.induct)
  case (1 ds p len pos w)
  show ?case
  proof (cases "pos < len")
    case False
    with "1.prems" have "unat len \<le> unat pos" by (simp add: word_le_nat_alt word_less_nat_alt)
    with False "1.prems" show ?thesis by (simp add: scan_token.simps)
  next
    case True
    then have i: "unat pos < length bs" using "1.prems"(3) by (simp add: word_less_nat_alt)
    have ld: "load p (unat pos) w = Some (bs ! unat pos)"
      using "1.prems"(1,2) i by (rule load_content)
    have dr: "drop (unat pos) bs = bs ! unat pos # drop (Suc (unat pos)) bs"
      using i by (simp add: Cons_nth_drop_Suc)
    have suc: "unat (pos + 1) = Suc (unat pos)"
      using True by (intro unat_inc_bounded) (simp add: word_less_nat_alt)
    show ?thesis
    proof (cases "strchr ds (bs ! unat pos)")
      case True
      with \<open>pos < len\<close> ld dr "1.prems"(4) show ?thesis by (simp add: scan_token.simps)
    next
      case d: False
      have le: "pos + 1 \<le> len" using True suc by (simp add: word_le_nat_alt word_less_nat_alt)
      from "1.IH"[OF True ld d "1.prems"(1,2,3) le]
      obtain r where "scan_token ds p len (pos + 1) w = Some r" "r \<le> len"
        "unat r = unat (pos + 1) + length (takeWhile (\<lambda>c. \<not> strchr ds c) (drop (unat (pos + 1)) bs))"
        by blast
      with True ld d dr suc show ?thesis
        by (subst scan_token.simps) simp
    qed
  qed
qed


lemma scan_str_c_chars:
  "scan_str (map Some s @ Some NUL # rest) = Some (c_chars s)"
  by (induction s) (auto simp: c_chars_def)

lemma c_chars_idem: "c_chars (c_chars s) = c_chars s"
  by (rule c_chars_id) (rule c_chars_no_NUL)

lemma length_c_chars: "length (c_chars s) \<le> length s"
  by (simp add: c_chars_def length_takeWhile_le)

text \<open>The tail shared by both tokenizers: copy the bytes \<open>[a, a + k)\<close> of the source into
  a temporary block, terminate it, build the token from it, release the block.\<close>

lemma emit_steps:
  assumes nn: "p \<noteq> NULL" and below: "p < brk w" and plan: "alloc_plan w = []"
    and src: "heap w p = Some (map Some bs @ rest)"
    and tk: "token \<noteq> NULL"
    and k: "unat tlen = k" and k1: "unat (tlen + 1) = Suc k" and ak: "a + k \<le> length bs"
    and small: "length bs < 2 ^ 64 - 1"
  defines "tok \<equiv> c_chars (take k (drop a bs))"
  defines "w2 \<equiv> w\<lparr>heap := (heap w)(brk w \<mapsto> replicate (Suc k) None),
                    brk := Suc (brk w), alloc_plan := []\<rparr>"
  defines "w3 \<equiv> w2\<lparr>heap := (heap w2)(brk w \<mapsto> map Some (take k (drop a bs)) @ [None])\<rparr>"
  defines "w4 \<equiv> w3\<lparr>heap := (heap w3)(brk w \<mapsto> map Some (take k (drop a bs)) @ [Some NUL])\<rparr>"
  defines "w5 \<equiv> w4\<lparr>objs := (objs w4)(token \<mapsto>
                       \<lparr>data = Suc (brk w), length_f = strlen tok, capacity = strlen tok + 1\<rparr>),
                    heap := (heap w4)(Suc (brk w) \<mapsto> map Some tok @ [Some NUL]),
                    brk := Suc (Suc (brk w)), alloc_plan := [],
                    cs_log := cs_log w @ [Assign token, Initialize token]\<rparr>"
  defines "w6 \<equiv> w5\<lparr>heap := (heap w5)(brk w := None)\<rparr>"
  shows "malloc (tlen + 1) w = (brk w, w2)"
    and "memcpy (brk w) 0 p a tlen w2 = Some w3"
    and "store (brk w) (unat tlen) NUL w3 = Some w4"
    and "emit_token token (brk w) w4 = Some (True, w5)"
    and "free (brk w) w5 = Some w6"
    and "contents token w6 = Some tok"
proof -
  have b0: "brk w \<noteq> NULL" and bp: "brk w \<noteq> p" using below by auto
  have nas: "next_alloc_succeeds w" using b0 plan by (simp add: next_alloc_succeeds_def)
  show "malloc (tlen + 1) w = (brk w, w2)"
    by (simp add: malloc_succeeds[OF nas] k1 w2_def plan)
  have tkd: "take k (drop a (map Some bs @ rest)) = map Some (take k (drop a bs))"
    using ak by (simp add: take_map drop_map)
  have "drop k (replicate (Suc k) (None :: cell)) = replicate (Suc k - k) None"
    by (rule drop_replicate)
  then have drp: "drop k (None # replicate k None) = [None :: cell]"
    by simp
  show "memcpy (brk w) 0 p a tlen w2 = Some w3"
    using b0 bp nn src ak tkd
    by (simp add: memcpy_def memmove_def load_cells_def store_cells_def w2_def w3_def k drp)
  show "store (brk w) (unat tlen) NUL w3 = Some w4"
    using b0 ak by (simp add: store_eq w3_def w4_def w2_def k list_update_append)
  have cs: "c_str (brk w) w4 = Some tok"
    using b0 scan_str_c_chars[of "take k (drop a bs)" "[]"]
    by (simp add: c_str_def w4_def w3_def w2_def tok_def)
  have nas4: "next_alloc_succeeds w4"
    using b0 by (simp add: next_alloc_succeeds_def w4_def w3_def w2_def)
  have "length tok \<le> length bs"
    using length_c_chars[of "take k (drop a bs)"] ak by (simp add: tok_def)
  then have sm: "length (c_chars tok) < 2 ^ 64 - 1"
    using small by (simp add: tok_def c_chars_idem)
  have cc: "c_chars tok = tok" by (simp add: tok_def c_chars_idem)
  show "emit_token token (brk w) w4 = Some (True, w5)"
    using tk
    by (simp add: emit_token_def cs cstr_create_from_chars_def
        cstr_strdup_succeeds(1)[OF nas4 sm] cc put_def InitializeCriticalSection_def w5_def)
       (simp add: w4_def w3_def w2_def plan)
  show "free (brk w) w5 = Some w6"
    using b0 by (simp add: free_def w6_def w5_def w4_def w3_def w2_def)
  have ul: "unat (strlen tok) = length tok"
    using cstr_strdup_succeeds(2)[OF nas4 sm] cc by simp
  show "contents token w6 = Some tok"
    by (simp add: contents_def load_cells_def w6_def w5_def w4_def w3_def w2_def ul
        those_map_Some)
qed


lemma well_formed_source:
  assumes "well_formed obj w" "contents obj w = Some bs"
  obtains ob rest where "objs w obj = Some ob" "data ob \<noteq> NULL" "data ob < brk w"
    "heap w (data ob) = Some (map Some bs @ Some NUL # rest)" "length bs = unat (length_f ob)"
    "length_f ob < capacity ob" "length bs < 2 ^ 64 - 1"
proof -
  from assms(1) obtain ob blk where ob: "objs w obj = Some ob"
    and blk: "heap w (data ob) = Some blk" and nn: "data ob \<noteq> NULL"
    and below: "data ob < brk w" and lt: "length_f ob < capacity ob"
    by (auto elim!: well_formedD)
  note c = well_formed_contents[OF assms(1) ob blk assms(2)]
  have "unat (capacity ob) < 2 ^ LENGTH(64)" by (rule unsigned_less)
  then have "length bs < 2 ^ 64 - 1" using c(1) lt by (simp add: word_less_nat_alt)
  with that[OF ob nn below _ c(1) lt] blk c(2) show thesis by simp
qed

lemma takeWhile_not_strchr_no_NUL:
  "NUL \<notin> set (takeWhile (\<lambda>c. \<not> strchr ds c) xs)"
proof
  assume "NUL \<in> set (takeWhile (\<lambda>c. \<not> strchr ds c) xs)"
  then have "\<not> strchr ds NUL" by (rule set_takeWhileD[THEN conjunct2])
  then show False by (simp add: strchr_def)
qed

lemma contents_unlock [simp]: "contents obj (cstr_unlock p w) = contents obj w"
  by (simp add: contents_def load_cells_def cong: if_cong)

lemma cstr_tokenize_refines:
  fixes ds bs :: string and sp :: size_t
  assumes "obj \<noteq> NULL" "token \<noteq> NULL" "well_formed obj w" "contents obj w = Some bs"
    and "unat sp < length bs" "alloc_plan w = []"
  defines "start \<equiv> unat sp + length (takeWhile (strchr ds) (drop (unat sp) bs))"
  defines "tok \<equiv> takeWhile (\<lambda>c. \<not> strchr ds c) (drop start bs)"
  shows "\<exists>w' cur. cstr_tokenize obj token (Some ds) (Some sp) w
                      = Some ((start < length bs, Some cur), w')
           \<and> unat cur = (if start + length tok < length bs then start + length tok + 1
                          else length bs)
           \<and> (start < length bs \<longrightarrow> contents token w' = Some tok)"
proof -
  from assms(3,4) obtain ob rest where ob: "objs w obj = Some ob" and nn: "data ob \<noteq> NULL"
    and below: "data ob < brk w"
    and src: "heap w (data ob) = Some (map Some bs @ Some NUL # rest)"
    and n: "length bs = unat (length_f ob)" and lt: "length_f ob < capacity ob"
    and small: "length bs < 2 ^ 64 - 1"
    by (rule well_formed_source)
  let ?wl = "cstr_lock obj w"
  let ?len = "length_f ob"
  have srcl: "heap ?wl (data ob) = Some (map Some bs @ Some NUL # rest)" using src by simp
  have spl: "sp < ?len" using assms(5) n by (simp add: word_less_nat_alt)
  then have sple: "sp \<le> ?len" and nsp: "\<not> ?len \<le> sp" by simp_all
  from skip_delims_spec[OF nn srcl n sple, of ds]
  obtain r1 where sk: "skip_delims ds (data ob) ?len sp ?wl = Some r1" and r1le: "r1 \<le> ?len"
    and r1: "unat r1 = start" by (auto simp: start_def)
  show ?thesis
  proof (cases "start < length bs")
    case False
    then have ge: "?len \<le> r1" using r1 n by (simp add: word_le_nat_alt)
    then have "r1 = ?len" using r1le by simp
    then have "unat r1 = length bs" using n by simp
    moreover have "tok = []" using False by (simp add: tok_def)
    ultimately show ?thesis
      using assms(1) ob nsp sk ge False
      by (simp add: cstr_tokenize_def Let_def)
  next
    case True
    then have r1lt: "r1 < ?len" using r1 n by (simp add: word_less_nat_alt)
    from scan_token_spec[OF nn srcl n r1le, of ds]
    obtain r2 where sc: "scan_token ds (data ob) ?len r1 ?wl = Some r2" and r2le: "r2 \<le> ?len"
      and r2: "unat r2 = start + length tok"
      by (auto simp: tok_def r1)
    have r12: "r1 \<le> r2" using r1 r2 by (simp add: word_le_nat_alt)
    have k: "unat (r2 - r1) = length tok" using unat_sub[OF r12] r1 r2 by simp
    have r2n: "unat r2 \<le> length bs" using r2le n by (simp add: word_le_nat_alt)
    have "unat (r2 - r1) < unat (capacity ob)"
      using k r2 r2n n lt by (simp add: word_less_nat_alt)
    then have k1: "unat (r2 - r1 + 1) = Suc (length tok)"
      using k unat_inc_bounded[of "r2 - r1" "capacity ob"] by simp
    have ak: "start + length tok \<le> length bs" using r2 r2n by simp
    have tk: "take (length tok) (drop start bs) = tok"
      unfolding tok_def by (rule takeWhile_eq_take[symmetric])
    have cc: "c_chars tok = tok"
      unfolding tok_def by (rule c_chars_id) (rule takeWhile_not_strchr_no_NUL)
    have belowl: "data ob < brk ?wl" and planl: "alloc_plan ?wl = []"
      using below assms(6) by simp_all
    note es = emit_steps[OF nn belowl planl srcl assms(2) k k1 ak small, unfolded tk cc]
    have cur: "unat (if r2 < ?len then r2 + 1 else ?len)
                 = (if start + length tok < length bs then start + length tok + 1 else length bs)"
    proof (cases "r2 < ?len")
      case True
      then have "unat (r2 + 1) = Suc (unat r2)"
        by (intro unat_inc_bounded) (simp add: word_less_nat_alt)
      with True r2 n show ?thesis by (simp add: word_less_nat_alt)
    next
      case False
      with r2 n show ?thesis by (simp add: word_less_nat_alt)
    qed
    have nge: "\<not> ?len \<le> r1" using r1lt by simp
    have bz: "brk w \<noteq> NULL" using below by simp
    show ?thesis
      using assms(1) ob nsp sk nge sc r1 es bz True cur
      by (simp add: cstr_tokenize_def Let_def)
  qed
qed


lemma takeWhile_span:
  fixes xs :: "'a list" and a :: nat and P :: "'a \<Rightarrow> bool"
  defines "e \<equiv> a + length (takeWhile P (drop a xs))"
  assumes "a \<le> length xs"
  shows "e \<le> length xs"
    and "\<And>i. a \<le> i \<Longrightarrow> i < e \<Longrightarrow> P (xs ! i)"
    and "e < length xs \<Longrightarrow> \<not> P (xs ! e)"
proof -
  have le: "length (takeWhile P (drop a xs)) \<le> length (drop a xs)"
    by (rule length_takeWhile_le)
  then show "e \<le> length xs" using assms(2) by (simp add: e_def)
  show "P (xs ! i)" if "a \<le> i" "i < e" for i
  proof -
    have j: "i - a < length (takeWhile P (drop a xs))" using that by (simp add: e_def)
    then have "takeWhile P (drop a xs) ! (i - a) \<in> set (takeWhile P (drop a xs))"
      by (rule nth_mem)
    then have "P (takeWhile P (drop a xs) ! (i - a))" by (rule set_takeWhileD[THEN conjunct2])
    moreover have "takeWhile P (drop a xs) ! (i - a) = drop a xs ! (i - a)"
      using j by (rule takeWhile_nth)
    moreover have "drop a xs ! (i - a) = xs ! i" using that assms(2) by simp
    ultimately show ?thesis by simp
  qed
  show "\<not> P (xs ! e)" if "e < length xs"
  proof -
    have "length (takeWhile P (drop a xs)) < length (drop a xs)" using that by (simp add: e_def)
    then have "\<not> P (drop a xs ! length (takeWhile P (drop a xs)))"
      by (rule nth_length_takeWhile)
    moreover have "drop a xs ! length (takeWhile P (drop a xs)) = xs ! e"
      using assms(2) by (simp add: e_def)
    ultimately show ?thesis by simp
  qed
qed

lemma cstr_tokenize_token:
  fixes ds bs :: string and sp :: size_t
  assumes "obj \<noteq> NULL" "token \<noteq> NULL" "well_formed obj w" "contents obj w = Some bs"
    and "unat sp < length bs" "alloc_plan w = []"
  shows "\<exists>found cur w' start end'.
           cstr_tokenize obj token (Some ds) (Some sp) w = Some ((found, Some cur), w')
           \<and> unat sp \<le> start \<and> start \<le> end' \<and> end' \<le> length bs
           \<and> (\<forall>i. unat sp \<le> i \<and> i < start \<longrightarrow> strchr ds (bs ! i))
           \<and> (\<forall>i. start \<le> i \<and> i < end' \<longrightarrow> \<not> strchr ds (bs ! i))
           \<and> (end' < length bs \<longrightarrow> strchr ds (bs ! end'))
           \<and> found = (start < length bs)
           \<and> (found \<longrightarrow> start < end' \<and> contents token w' = Some (take (end' - start) (drop start bs)))
           \<and> unat cur = (if end' < length bs then end' + 1 else length bs)"
proof -
  define start where "start = unat sp + length (takeWhile (strchr ds) (drop (unat sp) bs))"
  define tok where "tok = takeWhile (\<lambda>c. \<not> strchr ds c) (drop start bs)"
  define end' where "end' = start + length tok"
  have sp: "unat sp \<le> length bs" using assms(5) by simp
  note s1 = takeWhile_span[where P="strchr ds", OF sp, folded start_def]
  note s2 = takeWhile_span[where P="\<lambda>c. \<not> strchr ds c", OF s1(1), folded tok_def,
      folded end'_def]
  from cstr_tokenize_refines[OF assms, of ds, folded start_def, folded tok_def, folded end'_def]
  obtain w' cur where run: "cstr_tokenize obj token (Some ds) (Some sp) w
                              = Some ((start < length bs, Some cur), w')"
    and cur: "unat cur = (if end' < length bs then end' + 1 else length bs)"
    and tokc: "start < length bs \<longrightarrow> contents token w' = Some tok"
    by auto
  have nonempty: "start < end'" if "start < length bs"
  proof -
    have "\<not> strchr ds (bs ! start)" using s1(3) that by simp
    moreover have "drop start bs = bs ! start # drop (Suc start) bs"
      using that by (simp add: Cons_nth_drop_Suc)
    ultimately have "tok \<noteq> []" by (simp add: tok_def)
    then show ?thesis by (simp add: end'_def)
  qed
  have tk: "tok = take (end' - start) (drop start bs)"
    by (simp add: end'_def tok_def takeWhile_eq_take[symmetric])
  have "unat sp \<le> start" by (simp add: start_def)
  moreover have "start \<le> end'" by (simp add: end'_def)
  moreover have "\<forall>i. unat sp \<le> i \<and> i < start \<longrightarrow> strchr ds (bs ! i)" using s1(2) by blast
  moreover have "\<forall>i. start \<le> i \<and> i < end' \<longrightarrow> \<not> strchr ds (bs ! i)" using s2(2) by blast
  moreover have "end' < length bs \<longrightarrow> strchr ds (bs ! end')" using s2(3) by blast
  ultimately show ?thesis
    using run cur tokc nonempty tk s2(1) by blast
qed

text \<open>The body of the loop of \<^verbatim>\<open>cstr_tokenize_ex\<close> against \<open>scanner_step\<close>, the loop
  against \<open>scanned\<close>, and the whole function.\<close>

lemma ex_body_scanner_step:
  "(case ex_body ds zp ec pos c st of
      Break st' \<Rightarrow> scanner_step ds zp ec (escape st) (zone_of st) c = None \<and> token_end st' = pos
    | Continue st' \<Rightarrow>
        scanner_step ds zp ec (escape st) (zone_of st) c = Some (escape st', zone_of st')
        \<and> token_end st' = token_end st)"
  by (cases "escape st"; cases "in_zone st")
     (auto simp: ex_body_def zone_of_def opens_zone_def arms_escape_def Let_def
           split: option.splits)

lemma ex_loop_scans:
  fixes bs :: string
  assumes "p \<noteq> NULL" "heap w p = Some (map Some bs @ rest)" "length bs = unat len" "pos \<le> len"
  shows "\<exists>r st'. ex_loop ds zp ec p len pos st w = Some (r, st') \<and> r \<le> len
           \<and> unat r = unat pos + scanned ds zp ec (escape st) (zone_of st) (drop (unat pos) bs)
           \<and> (r < len \<longrightarrow> token_end st' = r)"
  using assms
proof (induction ds zp ec p len pos st w rule: ex_loop.induct)
  case (1 ds zp ec p len pos st w)
  show ?case
  proof (cases "pos < len")
    case False
    with "1.prems" have "unat len \<le> unat pos" by (simp add: word_le_nat_alt word_less_nat_alt)
    with False "1.prems" show ?thesis by (simp add: ex_loop.simps)
  next
    case True
    then have i: "unat pos < length bs" using "1.prems"(3) by (simp add: word_less_nat_alt)
    have ld: "load p (unat pos) w = Some (bs ! unat pos)"
      using "1.prems"(1,2) i by (rule load_content)
    have dr: "drop (unat pos) bs = bs ! unat pos # drop (Suc (unat pos)) bs"
      using i by (simp add: Cons_nth_drop_Suc)
    have suc: "unat (pos + 1) = Suc (unat pos)"
      using True by (intro unat_inc_bounded) (simp add: word_less_nat_alt)
    have le: "pos + 1 \<le> len" using True suc by (simp add: word_le_nat_alt word_less_nat_alt)
    note step = ex_body_scanner_step[where ds=ds and zp=zp and ec=ec and pos=pos and c="bs ! unat pos" and st=st]
    show ?thesis
    proof (cases "ex_body ds zp ec pos (bs ! unat pos) st")
      case (Break st')
      have "ex_loop ds zp ec p len pos st w = Some (pos, st')"
        using True ld Break by (subst ex_loop.simps) simp
      then show ?thesis using True step Break dr "1.prems"(4) by simp
    next
      case (Continue st')
      from "1.IH"[OF True ld Continue "1.prems"(1,2,3) le]
      obtain r st'' where run: "ex_loop ds zp ec p len (pos + 1) st' w = Some (r, st'')"
        and r2: "r \<le> len"
        and r3: "unat r = unat (pos + 1)
                    + scanned ds zp ec (escape st') (zone_of st') (drop (unat (pos + 1)) bs)"
        and r4: "r < len \<longrightarrow> token_end st'' = r"
        by blast
      have whole: "ex_loop ds zp ec p len pos st w = Some (r, st'')"
        using True ld Continue run by (subst ex_loop.simps) simp
      have "unat r = unat pos + scanned ds zp ec (escape st) (zone_of st) (drop (unat pos) bs)"
        using r3 step Continue dr suc by simp
      then show ?thesis using whole r2 r4 by blast
    qed
  qed
qed

lemma scanned_le: "scanned ds zp ec armed zone xs \<le> length xs"
  by (induction xs arbitrary: armed zone) (auto split: option.splits)


lemma scanner_split:
  "k \<le> length xs \<Longrightarrow>
     (case scanner_at ds zp ec armed zone (take k xs) of
        None \<Rightarrow> scanned ds zp ec armed zone xs < k
      | Some (armed', zone') \<Rightarrow>
          scanned ds zp ec armed zone xs = k + scanned ds zp ec armed' zone' (drop k xs))"
proof (induction xs arbitrary: k armed zone)
  case Nil
  then show ?case by simp
next
  case (Cons x xs)
  show ?case
  proof (cases k)
    case 0
    then show ?thesis by simp
  next
    case (Suc j)
    then have j: "j \<le> length xs" using Cons.prems by simp
    show ?thesis
    proof (cases "scanner_step ds zp ec armed zone x")
      case None
      then show ?thesis using Suc by simp
    next
      case (Some s)
      obtain a z where s: "s = (a, z)" by (cases s)
      from Cons.IH[OF j, of a z] show ?thesis using Suc Some s
        by (auto split: option.splits)
    qed
  qed
qed

lemma scanner_at_snoc:
  "scanner_at ds zp ec armed zone (xs @ [c]) =
     (case scanner_at ds zp ec armed zone xs of
        None \<Rightarrow> None
      | Some (armed', zone') \<Rightarrow> scanner_step ds zp ec armed' zone' c)"
  by (induction xs arbitrary: armed zone) (auto split: option.splits)

lemma cstr_tokenize_ex_scans:
  fixes ds bs :: string and sp :: size_t and zp ec :: "string option"
  assumes "obj \<noteq> NULL" "token \<noteq> NULL" "well_formed obj w" "contents obj w = Some bs"
    and "unat sp < length bs" "alloc_plan w = []"
  defines "start \<equiv> unat sp + length (takeWhile (strchr ds) (drop (unat sp) bs))"
  defines "end' \<equiv> start + scanned ds zp ec False None (drop start bs)"
  shows "\<exists>w' cur. cstr_tokenize_ex obj token (Some ds) zp ec (Some sp) w
                      = Some ((start < length bs, Some cur), w')
           \<and> end' \<le> length bs
           \<and> unat cur = (if end' < length bs then end' + 1 else length bs)
           \<and> (start < length bs \<longrightarrow> start < end'
                 \<and> contents token w' = Some (c_chars (take (end' - start) (drop start bs))))"
proof -
  from assms(3,4) obtain ob rest where ob: "objs w obj = Some ob" and nn: "data ob \<noteq> NULL"
    and below: "data ob < brk w"
    and src: "heap w (data ob) = Some (map Some bs @ Some NUL # rest)"
    and n: "length bs = unat (length_f ob)" and lt: "length_f ob < capacity ob"
    and small: "length bs < 2 ^ 64 - 1"
    by (rule well_formed_source)
  let ?wl = "cstr_lock obj w"
  let ?len = "length_f ob"
  let ?st0 = "\<lparr>token_end = invalid, in_zone = False, zone_end = NUL, escape = False\<rparr>"
  have srcl: "heap ?wl (data ob) = Some (map Some bs @ Some NUL # rest)" using src by simp
  have spl: "sp < ?len" using assms(5) n by (simp add: word_less_nat_alt)
  then have sple: "sp \<le> ?len" and nsp: "\<not> ?len \<le> sp" by simp_all
  from skip_delims_spec[OF nn srcl n sple, of ds]
  obtain r1 where sk: "skip_delims ds (data ob) ?len sp ?wl = Some r1" and r1le: "r1 \<le> ?len"
    and r1: "unat r1 = start" by (auto simp: start_def)
  have el: "end' \<le> length bs"
  proof -
    have "scanned ds zp ec False None (drop start bs) \<le> length (drop start bs)"
      by (rule scanned_le)
    moreover have "start \<le> length bs" using r1 r1le n by (simp add: word_le_nat_alt)
    ultimately show ?thesis by (simp add: end'_def)
  qed
  show ?thesis
  proof (cases "start < length bs")
    case False
    then have ge: "?len \<le> r1" using r1 n by (simp add: word_le_nat_alt)
    then have "r1 = ?len" using r1le by simp
    then have u: "unat r1 = length bs" using n by simp
    then have "start = length bs" using r1 by simp
    then have "end' = length bs" by (simp add: end'_def)
    moreover have "cstr_tokenize_ex obj token (Some ds) zp ec (Some sp) w
                     = Some ((False, Some r1), cstr_unlock obj ?wl)"
      using assms(1) ob nsp sk ge by (simp add: cstr_tokenize_ex_def Let_def)
    ultimately show ?thesis
      using False u
      by (intro exI[of _ "cstr_unlock obj ?wl"] exI[of _ r1]) simp
  next
    case True
    then have r1lt: "r1 < ?len" using r1 n by (simp add: word_less_nat_alt)
    from ex_loop_scans[OF nn srcl n r1le, of ds zp ec ?st0]
    obtain r2 st' where sc: "ex_loop ds zp ec (data ob) ?len r1 ?st0 ?wl = Some (r2, st')"
      and r2le: "r2 \<le> ?len"
      and r2: "unat r2 = end'"
      and brk: "r2 < ?len \<longrightarrow> token_end st' = r2"
      by (auto simp: r1 end'_def zone_of_def)
    define k where "k = end' - start"
    have sr2: "start \<le> end'" by (simp add: end'_def)
    have r12: "r1 \<le> r2" using r1 r2 sr2 by (simp add: word_le_nat_alt)
    have te: "(if r2 = ?len then ?len else token_end st') = r2"
      using brk r2le by auto
    have k: "unat (r2 - r1) = k" using unat_sub[OF r12] r1 r2 by (simp add: k_def)
    have "unat (r2 - r1) < unat (capacity ob)"
      using k el n lt by (simp add: word_less_nat_alt k_def)
    then have k1: "unat (r2 - r1 + 1) = Suc k"
      using k unat_inc_bounded[of "r2 - r1" "capacity ob"] by simp
    have ak: "start + k \<le> length bs" using sr2 el by (simp add: k_def)
    have belowl: "data ob < brk ?wl" and planl: "alloc_plan ?wl = []"
      using below assms(6) by simp_all
    note es = emit_steps[OF nn belowl planl srcl assms(2) k k1 ak small]
    have cur: "unat (if r2 < ?len then r2 + 1 else ?len)
                 = (if end' < length bs then end' + 1 else length bs)"
    proof (cases "r2 < ?len")
      case True
      then have "unat (r2 + 1) = Suc (unat r2)"
        by (intro unat_inc_bounded) (simp add: word_less_nat_alt)
      with True n r2 show ?thesis by (simp add: word_less_nat_alt)
    next
      case False
      with n r2 show ?thesis by (simp add: word_less_nat_alt)
    qed
    have nge: "\<not> ?len \<le> r1" using r1lt by simp
    have bz: "brk w \<noteq> NULL" using below by simp
    have nonempty: "start < end'"
    proof -
      have sl: "unat sp \<le> length bs" using assms(5) by simp
      have "\<not> strchr ds (bs ! start)"
        using takeWhile_span(3)[where P="strchr ds", OF sl] True by (simp add: start_def)
      moreover have "drop start bs = bs ! start # drop (Suc start) bs"
        using True by (simp add: Cons_nth_drop_Suc)
      ultimately have "0 < scanned ds zp ec False None (drop start bs)" by simp
      then show ?thesis by (simp add: end'_def)
    qed
    have "\<exists>w'. cstr_tokenize_ex obj token (Some ds) zp ec (Some sp) w
                      = Some ((True, Some (if r2 < ?len then r2 + 1 else ?len)), w')
                \<and> contents token w' = Some (c_chars (take k (drop start bs)))"
      using assms(1) ob nsp sk nge sc te r1 es bz
      by (simp add: cstr_tokenize_ex_def Let_def)
    then obtain w' where run: "cstr_tokenize_ex obj token (Some ds) zp ec (Some sp) w
                      = Some ((True, Some (if r2 < ?len then r2 + 1 else ?len)), w')"
      and ct: "contents token w' = Some (c_chars (take k (drop start bs)))"
      by blast
    show ?thesis
    proof (intro exI[of _ w'] exI[of _ "if r2 < ?len then r2 + 1 else ?len"] conjI impI)
      show "cstr_tokenize_ex obj token (Some ds) zp ec (Some sp) w =
            Some ((start < length bs, Some (if r2 < ?len then r2 + 1 else ?len)), w')"
        using run True by simp
      show "end' \<le> length bs" by (rule el)
      show "unat (if r2 < ?len then r2 + 1 else ?len)
              = (if end' < length bs then end' + 1 else length bs)" by (rule cur)
      show "start < end'" by (rule nonempty)
      show "contents token w' = Some (c_chars (take (end' - start) (drop start bs)))"
        using ct by (simp add: k_def)
    qed
  qed
qed

text \<open>What the scan does with the byte at offset \<open>i\<close>, by the state in which it arrives
  there.\<close>

lemma scanner_at_byte:
  fixes bs ds :: string and zp ec :: "string option" and start i :: nat
  assumes "start \<le> i" "i < length bs"
  defines "end' \<equiv> start + scanned ds zp ec False None (drop start bs)"
  shows "case scanner_at ds zp ec False None (take (i - start) (drop start bs)) of
           None \<Rightarrow> end' < i
         | Some (armed, zone) \<Rightarrow>
             (if armed
              then i < end'
                   \<and> scanner_at ds zp ec False None (take (Suc i - start) (drop start bs))
                       = Some (False, zone)
              else if zone \<noteq> None
              then i < end'
                   \<and> scanner_at ds zp ec False None (take (Suc i - start) (drop start bs))
                       = Some (False, if zone = Some (bs ! i) then None else zone)
              else if strchr ds (bs ! i) then end' = i
              else i < end'
                   \<and> scanner_at ds zp ec False None (take (Suc i - start) (drop start bs))
                       = Some (arms_escape ec (bs ! i), opens_zone zp (bs ! i)))"
proof -
  have k: "i - start \<le> length (drop start bs)" using assms(1,2) by simp
  have dr: "drop (i - start) (drop start bs) = bs ! i # drop (Suc i) bs"
    using assms(1,2) by (simp add: Cons_nth_drop_Suc)
  have "take (Suc (i - start)) (drop start bs) = take (i - start) (drop start bs) @ [drop start bs ! (i - start)]"
    using assms(1,2) by (intro take_Suc_conv_app_nth) simp
  then have tk: "take (Suc i - start) (drop start bs) = take (i - start) (drop start bs) @ [bs ! i]"
    using assms(1,2) by (simp add: Suc_diff_le)
  note sp = scanner_split[OF k, of ds zp ec False None]
  note nx = scanner_at_snoc[of ds zp ec False None "take (i - start) (drop start bs)" "bs ! i",
      folded tk]
  show ?thesis
  proof (cases "scanner_at ds zp ec False None (take (i - start) (drop start bs))")
    case None
    with sp show ?thesis using assms(1) by (simp add: end'_def)
  next
    case (Some s)
    obtain a z where s: "s = (a, z)" by (cases s)
    from sp Some s have e: "end' = i + scanned ds zp ec a z (bs ! i # drop (Suc i) bs)"
      using assms(1) dr by (simp add: end'_def)
    from nx Some s
    have n: "scanner_at ds zp ec False None (take (Suc i - start) (drop start bs))
               = scanner_step ds zp ec a z (bs ! i)"
      by simp
    show ?thesis
    proof (cases a)
      case True
      with e n Some s show ?thesis by simp
    next
      case na: False
      show ?thesis
      proof (cases z)
        case (Some closer)
        with e n na s \<open>scanner_at ds zp ec False None (take (i - start) (drop start bs)) = Some s\<close>
        show ?thesis by auto
      next
        case None
        with e n na s \<open>scanner_at ds zp ec False None (take (i - start) (drop start bs)) = Some s\<close>
        show ?thesis by simp
      qed
    qed
  qed
qed

text \<open>
  C5.  The loop of the README around \<^verbatim>\<open>cstr_tokenize\<close>, on the buffer \<^verbatim>\<open>a,b,,c\<close> with the
  delimiter set \<^verbatim>\<open>","\<close> from cursor 0, yields \<^verbatim>\<open>a\<close>, \<^verbatim>\<open>b\<close>, \<^verbatim>\<open>c\<close> with the cursors 2, 4
  and 6, and the fourth call reports exhaustion with the cursor at 6.  In general, a
  call on a well-formed buffer with content \<open>bs\<close> and a cursor inside it, with an
  allocator that does not fail, skips the delimiters in front (\<open>[sp, start)\<close>), and
  emits the non-empty run of non-delimiters \<open>[start, end)\<close> that follows, unless the
  skipping reached the end of the buffer; the run ends at a delimiter or at the end
  of the buffer, and the cursor is left behind that delimiter or at the end.
\<close>

theorem tokenize_skips_delimiter_runs:
  "(do { (ok, w) \<leftarrow> cstr_create_from_chars 1 (Some ''a,b,,c'') world0;
         ((tokens, final), w) \<leftarrow> tokenize_all 1 2 (Some '','') (Some 0) w;
         Some (tokens, final) })
     = Some ([(''a'', Some 2), (''b'', Some 4), (''c'', Some 6)], Some 6)
   \<and> (obj \<noteq> NULL \<and> token \<noteq> NULL \<and> well_formed obj w \<and> contents obj w = Some bs
        \<and> unat sp < length bs \<and> alloc_plan w = [] \<longrightarrow>
        (\<exists>found cur w' start end'.
            cstr_tokenize obj token (Some ds) (Some sp) w = Some ((found, Some cur), w')
            \<and> unat sp \<le> start \<and> start \<le> end' \<and> end' \<le> length bs
            \<and> (\<forall>i. unat sp \<le> i \<and> i < start \<longrightarrow> strchr ds (bs ! i))
            \<and> (\<forall>i. start \<le> i \<and> i < end' \<longrightarrow> \<not> strchr ds (bs ! i))
            \<and> (end' < length bs \<longrightarrow> strchr ds (bs ! end'))
            \<and> found = (start < length bs)
            \<and> (found \<longrightarrow> start < end'
                  \<and> contents token w' = Some (take (end' - start) (drop start bs)))
            \<and> unat cur = (if end' < length bs then end' + 1 else length bs)))"
proof (intro conjI impI; (elim conjE)?)
  show "(do { (ok, w) \<leftarrow> cstr_create_from_chars 1 (Some ''a,b,,c'') world0;
         ((tokens, final), w) \<leftarrow> tokenize_all 1 2 (Some '','') (Some 0) w;
         Some (tokens, final) })
     = Some ([(''a'', Some 2), (''b'', Some 4), (''c'', Some 6)], Some 6)"
    by (simp add: runtime_defs cstr_create_from_chars_def cstr_tokenize_def emit_token_def
        cstr_data_def cstr_destroy_def tokenize_all.simps skip_delims.simps scan_token.simps
        Let_def)
next
  assume "obj \<noteq> NULL" "token \<noteq> NULL" "well_formed obj w" "contents obj w = Some bs"
    "unat sp < length bs" "alloc_plan w = []"
  then show "\<exists>found cur w' start end'.
            cstr_tokenize obj token (Some ds) (Some sp) w = Some ((found, Some cur), w')
            \<and> unat sp \<le> start \<and> start \<le> end' \<and> end' \<le> length bs
            \<and> (\<forall>i. unat sp \<le> i \<and> i < start \<longrightarrow> strchr ds (bs ! i))
            \<and> (\<forall>i. start \<le> i \<and> i < end' \<longrightarrow> \<not> strchr ds (bs ! i))
            \<and> (end' < length bs \<longrightarrow> strchr ds (bs ! end'))
            \<and> found = (start < length bs)
            \<and> (found \<longrightarrow> start < end'
                  \<and> contents token w' = Some (take (end' - start) (drop start bs)))
            \<and> unat cur = (if end' < length bs then end' + 1 else length bs)"
    by (rule cstr_tokenize_token)
qed

theorem tokenize_skips_delimiter_runs_witness:
  "\<exists>found cur w' start end'.
      cstr_tokenize 1 2 (Some '','') (Some 3) comma_buffer = Some ((found, Some cur), w')
      \<and> unat (3 :: size_t) \<le> start \<and> start \<le> end' \<and> end' \<le> length ''a,b,,c''
      \<and> (\<forall>i. unat (3 :: size_t) \<le> i \<and> i < start \<longrightarrow> strchr '','' (''a,b,,c'' ! i))
      \<and> (\<forall>i. start \<le> i \<and> i < end' \<longrightarrow> \<not> strchr '','' (''a,b,,c'' ! i))
      \<and> (end' < length ''a,b,,c'' \<longrightarrow> strchr '','' (''a,b,,c'' ! end'))
      \<and> found = (start < length ''a,b,,c'')
      \<and> (found \<longrightarrow> start < end'
            \<and> contents 2 w' = Some (take (end' - start) (drop start ''a,b,,c'')))
      \<and> unat cur = (if end' < length ''a,b,,c'' then end' + 1 else length ''a,b,,c'')"
proof -
  have wf: "well_formed 1 comma_buffer"
    by (simp add: well_formed_def comma_buffer_def)
  have ct: "contents 1 comma_buffer = Some ''a,b,,c''"
    by (simp add: contents_def load_cells_def comma_buffer_def)
  have plan: "alloc_plan comma_buffer = []" by (simp add: comma_buffer_def)
  have sp: "unat (3 :: size_t) < length ''a,b,,c''" by simp
  have h: "(1 :: ptr) \<noteq> NULL \<and> (2 :: ptr) \<noteq> NULL \<and> well_formed 1 comma_buffer
             \<and> contents 1 comma_buffer = Some ''a,b,,c''
             \<and> unat (3 :: size_t) < length ''a,b,,c'' \<and> alloc_plan comma_buffer = []"
    using wf ct plan sp by simp
  show ?thesis
    by (rule tokenize_skips_delimiter_runs
          [where obj = 1 and token = 2 and w = comma_buffer and bs = "''a,b,,c''" and sp = 3
             and ds = "'',''", THEN conjunct2, THEN mp, OF h])
qed

section \<open>The scan of the zone-aware tokenizer\<close>

text \<open>
  C3, as the code has it.  On a well-formed buffer with content \<open>bs\<close>, with the cursor
  inside it and an allocator that does not fail, \<^verbatim>\<open>cstr_tokenize_ex\<close> skips the delimiters
  in front (\<open>[sp, start)\<close>), and the token it emits is the run \<open>[start, end)\<close> that the
  scan \<open>scanned\<close> passes, cut at its first zero byte; the cursor is left behind the
  delimiter that stopped the scan, or at the end of the buffer.  For every byte from
  \<open>start\<close> on, by the state in which the scan arrives there, the first of these that
  applies is what happens:
  \<^item> suppression is armed: it is cleared, nothing else is looked at, and the token
    goes on;
  \<^item> the scan is inside a zone: only the closing character is looked for, so an
    escape character inside a zone arms nothing, and the token goes on;
  \<^item> the byte is a delimiter: the token ends here;
  \<^item> otherwise the zone-opening check and the escape check are both made, each on its
    own, so a byte that is a zone opener and an escape character opens the zone and
    arms suppression; the token goes on.
\<close>

theorem cstr_tokenize_ex_precedence:
  "obj \<noteq> NULL \<and> token \<noteq> NULL \<and> well_formed obj w \<and> contents obj w = Some bs
     \<and> unat sp < length bs \<and> alloc_plan w = [] \<longrightarrow>
   (\<exists>found cur w' start end'.
      cstr_tokenize_ex obj token (Some ds) zp ec (Some sp) w = Some ((found, Some cur), w')
      \<and> start = unat sp + length (takeWhile (strchr ds) (drop (unat sp) bs))
      \<and> end' = start + scanned ds zp ec False None (drop start bs)
      \<and> end' \<le> length bs
      \<and> found = (start < length bs)
      \<and> (found \<longrightarrow> start < end'
            \<and> contents token w' = Some (c_chars (take (end' - start) (drop start bs))))
      \<and> unat cur = (if end' < length bs then end' + 1 else length bs)
      \<and> (\<forall>i. start \<le> i \<and> i < length bs \<longrightarrow>
           (case scanner_at ds zp ec False None (take (i - start) (drop start bs)) of
              None \<Rightarrow> end' < i
            | Some (armed, zone) \<Rightarrow>
                (if armed
                 then i < end'
                      \<and> scanner_at ds zp ec False None (take (Suc i - start) (drop start bs))
                          = Some (False, zone)
                 else if zone \<noteq> None
                 then i < end'
                      \<and> scanner_at ds zp ec False None (take (Suc i - start) (drop start bs))
                          = Some (False, if zone = Some (bs ! i) then None else zone)
                 else if strchr ds (bs ! i) then end' = i
                 else i < end'
                      \<and> scanner_at ds zp ec False None (take (Suc i - start) (drop start bs))
                          = Some (arms_escape ec (bs ! i), opens_zone zp (bs ! i))))))"
proof (intro impI; elim conjE)
  assume a: "obj \<noteq> NULL" "token \<noteq> NULL" "well_formed obj w" "contents obj w = Some bs"
    "unat sp < length bs" "alloc_plan w = []"
  define start where "start = unat sp + length (takeWhile (strchr ds) (drop (unat sp) bs))"
  define end' where "end' = start + scanned ds zp ec False None (drop start bs)"
  from cstr_tokenize_ex_scans[OF a, of ds zp ec, folded start_def, folded end'_def]
  obtain w' cur where
    run: "cstr_tokenize_ex obj token (Some ds) zp ec (Some sp) w
            = Some ((start < length bs, Some cur), w')"
    and el: "end' \<le> length bs"
    and c: "unat cur = (if end' < length bs then end' + 1 else length bs)"
    and t: "start < length bs \<longrightarrow> start < end'
              \<and> contents token w' = Some (c_chars (take (end' - start) (drop start bs)))"
    by blast
  show "\<exists>found cur w' start end'.
      cstr_tokenize_ex obj token (Some ds) zp ec (Some sp) w = Some ((found, Some cur), w')
      \<and> start = unat sp + length (takeWhile (strchr ds) (drop (unat sp) bs))
      \<and> end' = start + scanned ds zp ec False None (drop start bs)
      \<and> end' \<le> length bs
      \<and> found = (start < length bs)
      \<and> (found \<longrightarrow> start < end'
            \<and> contents token w' = Some (c_chars (take (end' - start) (drop start bs))))
      \<and> unat cur = (if end' < length bs then end' + 1 else length bs)
      \<and> (\<forall>i. start \<le> i \<and> i < length bs \<longrightarrow>
           (case scanner_at ds zp ec False None (take (i - start) (drop start bs)) of
              None \<Rightarrow> end' < i
            | Some (armed, zone) \<Rightarrow>
                (if armed
                 then i < end'
                      \<and> scanner_at ds zp ec False None (take (Suc i - start) (drop start bs))
                          = Some (False, zone)
                 else if zone \<noteq> None
                 then i < end'
                      \<and> scanner_at ds zp ec False None (take (Suc i - start) (drop start bs))
                          = Some (False, if zone = Some (bs ! i) then None else zone)
                 else if strchr ds (bs ! i) then end' = i
                 else i < end'
                      \<and> scanner_at ds zp ec False None (take (Suc i - start) (drop start bs))
                          = Some (arms_escape ec (bs ! i), opens_zone zp (bs ! i)))))"
  proof (rule exI[of _ "start < length bs"], rule exI[of _ cur], rule exI[of _ w'],
      rule exI[of _ start], rule exI[of _ end'], intro conjI allI impI)
    show "cstr_tokenize_ex obj token (Some ds) zp ec (Some sp) w
            = Some ((start < length bs, Some cur), w')" by (rule run)
    show "start = unat sp + length (takeWhile (strchr ds) (drop (unat sp) bs))"
      by (rule start_def)
    show "end' = start + scanned ds zp ec False None (drop start bs)" by (rule end'_def)
    show "end' \<le> length bs" by (rule el)
    show "(start < length bs) = (start < length bs)" by (rule refl)
    show "start < end'" if "start < length bs" using t that by simp
    show "contents token w' = Some (c_chars (take (end' - start) (drop start bs)))"
      if "start < length bs" using t that by simp
    show "unat cur = (if end' < length bs then end' + 1 else length bs)" by (rule c)
    fix i assume "start \<le> i \<and> i < length bs"
    then have i: "start \<le> i" "i < length bs" by simp_all
    show "case scanner_at ds zp ec False None (take (i - start) (drop start bs)) of
              None \<Rightarrow> end' < i
            | Some (armed, zone) \<Rightarrow>
                (if armed
                 then i < end'
                      \<and> scanner_at ds zp ec False None (take (Suc i - start) (drop start bs))
                          = Some (False, zone)
                 else if zone \<noteq> None
                 then i < end'
                      \<and> scanner_at ds zp ec False None (take (Suc i - start) (drop start bs))
                          = Some (False, if zone = Some (bs ! i) then None else zone)
                 else if strchr ds (bs ! i) then end' = i
                 else i < end'
                      \<and> scanner_at ds zp ec False None (take (Suc i - start) (drop start bs))
                          = Some (arms_escape ec (bs ! i), opens_zone zp (bs ! i)))"
      unfolding end'_def by (rule scanner_at_byte[OF i])
  qed
qed

text \<open>The ten bytes of \<open>quoted_buffer\<close> with the configuration of the README (delimiter
  space, zone pair of double quotes, escape character backslash): the space behind
  the backslash is suppressed, the space between the quotes is inside the zone, and
  the space at offset 8 ends the token.\<close>

theorem cstr_tokenize_ex_precedence_witness:
  "\<exists>found cur w'.
      cstr_tokenize_ex 1 2 (Some '' '') (Some [CHR 0x22, CHR 0x22]) (Some [CHR 0x5C]) (Some 0)
         quoted_buffer = Some ((found, Some cur), w')
      \<and> found \<and> unat cur = 9
      \<and> contents 2 w' = Some [CHR ''x'', CHR 0x5C, CHR '' '', CHR 0x22, CHR ''a'', CHR '' '',
                                CHR ''b'', CHR 0x22]"
proof -
  have wf: "well_formed 1 quoted_buffer"
    by (simp add: well_formed_def quoted_buffer_def)
  have ct: "contents 1 quoted_buffer
              = Some [CHR ''x'', CHR 0x5C, CHR '' '', CHR 0x22, CHR ''a'', CHR '' '',
                      CHR ''b'', CHR 0x22, CHR '' '', CHR ''c'']"
    by (simp add: contents_def load_cells_def quoted_buffer_def)
  have plan: "alloc_plan quoted_buffer = []" by (simp add: quoted_buffer_def)
  show ?thesis
    using cstr_tokenize_ex_precedence
      [where obj = 1 and token = 2 and w = quoted_buffer
         and bs = "[CHR ''x'', CHR 0x5C, CHR '' '', CHR 0x22, CHR ''a'', CHR '' '',
                      CHR ''b'', CHR 0x22, CHR '' '', CHR ''c'']" and sp = 0
         and ds = "'' ''" and zp = "Some [CHR 0x22, CHR 0x22]" and ec = "Some [CHR 0x5C]"]
      wf ct plan
    by (auto simp: strchr_def c_chars_def opens_zone_def arms_escape_def)
qed

text \<open>
  The claim lets a character trigger at most one check and lets an escape character
  arm suppression inside a zone.  With the zone pair \<^verbatim>\<open><>\<close> and the escape character
  \<^verbatim>\<open><\<close>, whichever single check the first byte of \<^verbatim>\<open><> b\<close> triggered, the token would be
  \<^verbatim>\<open><>\<close>: the code opens the zone and arms suppression, passes over \<^verbatim>\<open>>\<close> without
  closing the zone, and runs to the end of the buffer.  With the README
  configuration and the eight bytes \<^verbatim>\<open>"a\<close>, backslash, \<^verbatim>\<open>"b" c\<close>, a backslash that armed
  suppression inside the zone would keep the zone open up to the third quote and end
  the token at the space: the code closes the zone at the second quote, opens
  another at the third, and runs to the end of the buffer.
\<close>

theorem cstr_tokenize_ex_precedence_counterexample:
  "(do { (ok, w) \<leftarrow> cstr_create_from_chars 1 (Some ''<> b'') world0;
         ((found, cursor), w) \<leftarrow>
            cstr_tokenize_ex 1 2 (Some '' '') (Some ''<>'') (Some ''<'') (Some 0) w;
         token \<leftarrow> contents 2 w;
         Some (found, cursor, token) })
     = Some (True, Some 4, ''<> b'')
   \<and> (do { (ok, w) \<leftarrow> cstr_create_from_chars 1
                        (Some [CHR 0x22, CHR ''a'', CHR 0x5C, CHR 0x22, CHR ''b'', CHR 0x22,
                               CHR '' '', CHR ''c'']) world0;
           ((found, cursor), w) \<leftarrow>
              cstr_tokenize_ex 1 2 (Some '' '') (Some [CHR 0x22, CHR 0x22]) (Some [CHR 0x5C])
                (Some 0) w;
           token \<leftarrow> contents 2 w;
           Some (found, cursor, token) })
       = Some (True, Some 8, [CHR 0x22, CHR ''a'', CHR 0x5C, CHR 0x22, CHR ''b'', CHR 0x22,
                               CHR '' '', CHR ''c''])"
  by (simp add: runtime_defs cstr_tokenize_ex_def emit_token_def
      cstr_create_from_chars_def ex_body_def skip_delims.simps ex_loop.simps Let_def)

section \<open>Zero bytes in the content\<close>

lemma strchr_NUL: "strchr ds NUL"
  by (simp add: strchr_def)

lemma zero_in_front:
  fixes bs ds :: string
  assumes "a \<le> z" "z < length bs" "bs ! z = NUL" "\<forall>i. a \<le> i \<and> i < z \<longrightarrow> strchr ds (bs ! i)"
  shows "z < a + length (takeWhile (strchr ds) (drop a bs))"
proof (rule ccontr)
  let ?s = "a + length (takeWhile (strchr ds) (drop a bs))"
  assume "\<not> z < ?s"
  then have sz: "?s \<le> z" by simp
  have al: "a \<le> length bs" using assms(1,2) by simp
  have "?s < length bs" using sz assms(2) by simp
  then have n: "\<not> strchr ds (bs ! ?s)" by (rule takeWhile_span(3)[where P="strchr ds", OF al])
  have "strchr ds (bs ! ?s)"
  proof (cases "?s = z")
    case True
    then show ?thesis using assms(3) strchr_NUL by simp
  next
    case False
    then have "?s < z" using sz by simp
    then show ?thesis using assms(4) by simp
  qed
  with n show False by simp
qed

lemma zero_ends_run:
  fixes bs ds :: string
  assumes "a \<le> length bs" "z < length bs" "bs ! z = NUL"
  defines "e \<equiv> a + length (takeWhile (\<lambda>c. \<not> strchr ds c) (drop a bs))"
  shows "z < a \<or> e \<le> z"
    and "a \<le> z \<Longrightarrow> \<forall>i. a \<le> i \<and> i < z \<longrightarrow> \<not> strchr ds (bs ! i) \<Longrightarrow> e = z"
proof -
  note sp = takeWhile_span[where P="\<lambda>c. \<not> strchr ds c", OF assms(1), folded e_def]
  show c: "z < a \<or> e \<le> z"
  proof (rule ccontr)
    assume "\<not> (z < a \<or> e \<le> z)"
    then have "\<not> strchr ds (bs ! z)" using sp(2)[of z] by simp
    then show False using assms(3) strchr_NUL by simp
  qed
  show "e = z" if "a \<le> z" "\<forall>i. a \<le> i \<and> i < z \<longrightarrow> \<not> strchr ds (bs ! i)"
  proof (rule ccontr)
    assume ne: "e \<noteq> z"
    have "e \<le> z" using c that(1) by simp
    with ne have lt: "e < z" by simp
    then have "e < length bs" using assms(2) by simp
    then have "\<not> \<not> strchr ds (bs ! e)" by (rule sp(3))
    moreover have "a \<le> e" by (simp add: e_def)
    ultimately show False using that(2) lt by simp
  qed
qed

text \<open>
  C10, as the code has it.  \<^verbatim>\<open>strchr\<close> finds the zero byte in every delimiter string.
  For a zero byte at offset \<open>z\<close> of a well-formed buffer, \<^verbatim>\<open>cstr_tokenize\<close> skips the
  delimiters in front (\<open>[sp, start)\<close>) and emits the run of non-delimiters
  \<open>[start, end)\<close>; the zero byte is never inside that run: it is skipped when only
  delimiters stand between the cursor and it, and it ends the token, with the cursor
  left behind it, when no delimiter stands between \<open>start\<close> and it.
  \<^verbatim>\<open>cstr_tokenize_ex\<close> skips it in front in the same way; from \<open>start\<close> on, the zero
  byte ends the token, with the cursor left behind it, when the scan arrives there
  outside a zone with no suppression armed, and the scan passes over it when it
  arrives there inside a zone or with suppression armed.  The token that
  \<^verbatim>\<open>cstr_tokenize_ex\<close> builds is cut at its first zero byte.
\<close>

theorem tokenize_zero_byte_delimits:
  "strchr ds NUL
   \<and> (obj \<noteq> NULL \<and> token \<noteq> NULL \<and> well_formed obj w \<and> contents obj w = Some bs
        \<and> unat sp < length bs \<and> alloc_plan w = [] \<and> z < length bs \<and> bs ! z = NUL \<longrightarrow>
        (\<exists>found cur w' start end'.
            cstr_tokenize obj token (Some ds) (Some sp) w = Some ((found, Some cur), w')
            \<and> start = unat sp + length (takeWhile (strchr ds) (drop (unat sp) bs))
            \<and> end' = start + length (takeWhile (\<lambda>c. \<not> strchr ds c) (drop start bs))
            \<and> end' \<le> length bs
            \<and> found = (start < length bs)
            \<and> (found \<longrightarrow> start < end'
                  \<and> contents token w' = Some (take (end' - start) (drop start bs)))
            \<and> unat cur = (if end' < length bs then end' + 1 else length bs)
            \<and> (z < start \<or> end' \<le> z)
            \<and> (unat sp \<le> z \<and> (\<forall>i. unat sp \<le> i \<and> i < z \<longrightarrow> strchr ds (bs ! i))
                  \<longrightarrow> z < start)
            \<and> (start \<le> z \<and> (\<forall>i. start \<le> i \<and> i < z \<longrightarrow> \<not> strchr ds (bs ! i))
                  \<longrightarrow> end' = z \<and> unat cur = z + 1)))
   \<and> (obj \<noteq> NULL \<and> token \<noteq> NULL \<and> well_formed obj w \<and> contents obj w = Some bs
        \<and> unat sp < length bs \<and> alloc_plan w = [] \<and> z < length bs \<and> bs ! z = NUL \<longrightarrow>
        (\<exists>found cur w' start end'.
            cstr_tokenize_ex obj token (Some ds) zp ec (Some sp) w = Some ((found, Some cur), w')
            \<and> start = unat sp + length (takeWhile (strchr ds) (drop (unat sp) bs))
            \<and> end' = start + scanned ds zp ec False None (drop start bs)
            \<and> end' \<le> length bs
            \<and> found = (start < length bs)
            \<and> (found \<longrightarrow> start < end'
                  \<and> contents token w' = Some (c_chars (take (end' - start) (drop start bs))))
            \<and> unat cur = (if end' < length bs then end' + 1 else length bs)
            \<and> (unat sp \<le> z \<and> (\<forall>i. unat sp \<le> i \<and> i < z \<longrightarrow> strchr ds (bs ! i))
                  \<longrightarrow> z < start)
            \<and> (start \<le> z \<longrightarrow>
                  (case scanner_at ds zp ec False None (take (z - start) (drop start bs)) of
                     None \<Rightarrow> end' < z
                   | Some (armed, zone) \<Rightarrow>
                       if armed \<or> zone \<noteq> None then z < end'
                       else end' = z \<and> unat cur = z + 1))))"
proof (intro conjI impI; (elim conjE)?)
  show "strchr ds NUL" by (rule strchr_NUL)
next
  assume a: "obj \<noteq> NULL" "token \<noteq> NULL" "well_formed obj w" "contents obj w = Some bs"
    "unat sp < length bs" "alloc_plan w = []" and z: "z < length bs" "bs ! z = NUL"
  define start where "start = unat sp + length (takeWhile (strchr ds) (drop (unat sp) bs))"
  define end' where "end' = start + length (takeWhile (\<lambda>c. \<not> strchr ds c) (drop start bs))"
  from cstr_tokenize_refines[OF a, of ds, folded start_def, folded end'_def]
  obtain w' cur where
    run: "cstr_tokenize obj token (Some ds) (Some sp) w = Some ((start < length bs, Some cur), w')"
    and c: "unat cur = (if end' < length bs then end' + 1 else length bs)"
    and t: "start < length bs \<longrightarrow>
              contents token w' = Some (takeWhile (\<lambda>c. \<not> strchr ds c) (drop start bs))"
    by auto
  have spl: "unat sp \<le> length bs" using a(5) by simp
  note s1 = takeWhile_span[where P="strchr ds", OF spl, folded start_def]
  note s2 = takeWhile_span[where P="\<lambda>c. \<not> strchr ds c", OF s1(1), folded end'_def]
  note ze = zero_ends_run[OF s1(1) z, of ds, folded end'_def]
  have tk: "takeWhile (\<lambda>c. \<not> strchr ds c) (drop start bs) = take (end' - start) (drop start bs)"
    by (simp add: end'_def takeWhile_eq_take[symmetric])
  have nonempty: "start < end'" if "start < length bs"
  proof -
    have "\<not> strchr ds (bs ! start)" using s1(3) that by simp
    moreover have "drop start bs = bs ! start # drop (Suc start) bs"
      using that by (simp add: Cons_nth_drop_Suc)
    ultimately show ?thesis by (simp add: end'_def)
  qed
  show "\<exists>found cur w' start end'.
            cstr_tokenize obj token (Some ds) (Some sp) w = Some ((found, Some cur), w')
            \<and> start = unat sp + length (takeWhile (strchr ds) (drop (unat sp) bs))
            \<and> end' = start + length (takeWhile (\<lambda>c. \<not> strchr ds c) (drop start bs))
            \<and> end' \<le> length bs
            \<and> found = (start < length bs)
            \<and> (found \<longrightarrow> start < end'
                  \<and> contents token w' = Some (take (end' - start) (drop start bs)))
            \<and> unat cur = (if end' < length bs then end' + 1 else length bs)
            \<and> (z < start \<or> end' \<le> z)
            \<and> (unat sp \<le> z \<and> (\<forall>i. unat sp \<le> i \<and> i < z \<longrightarrow> strchr ds (bs ! i))
                  \<longrightarrow> z < start)
            \<and> (start \<le> z \<and> (\<forall>i. start \<le> i \<and> i < z \<longrightarrow> \<not> strchr ds (bs ! i))
                  \<longrightarrow> end' = z \<and> unat cur = z + 1)"
  proof (rule exI[of _ "start < length bs"], rule exI[of _ cur], rule exI[of _ w'],
      rule exI[of _ start], rule exI[of _ end'], intro conjI impI; (elim conjE)?)
    show "cstr_tokenize obj token (Some ds) (Some sp) w
            = Some ((start < length bs, Some cur), w')" by (rule run)
    show "start = unat sp + length (takeWhile (strchr ds) (drop (unat sp) bs))"
      by (rule start_def)
    show "end' = start + length (takeWhile (\<lambda>c. \<not> strchr ds c) (drop start bs))"
      by (rule end'_def)
    show "end' \<le> length bs" by (rule s2(1))
    show "(start < length bs) = (start < length bs)" by (rule refl)
    show "start < end'" if "start < length bs" using nonempty that by simp
    show "contents token w' = Some (take (end' - start) (drop start bs))"
      if "start < length bs" using t tk that by simp
    show "unat cur = (if end' < length bs then end' + 1 else length bs)" by (rule c)
    show "z < start \<or> end' \<le> z" by (rule ze(1))
    show "z < start"
      if "unat sp \<le> z" "\<forall>i. unat sp \<le> i \<and> i < z \<longrightarrow> strchr ds (bs ! i)"
      unfolding start_def using that(1) z that(2) by (rule zero_in_front)
    show "end' = z"
      if "start \<le> z" "\<forall>i. start \<le> i \<and> i < z \<longrightarrow> \<not> strchr ds (bs ! i)"
      using that by (rule ze(2))
    show "unat cur = z + 1"
      if "start \<le> z" "\<forall>i. start \<le> i \<and> i < z \<longrightarrow> \<not> strchr ds (bs ! i)"
      using ze(2)[OF that] c z(1) by simp
  qed
next
  assume a: "obj \<noteq> NULL" "token \<noteq> NULL" "well_formed obj w" "contents obj w = Some bs"
    "unat sp < length bs" "alloc_plan w = []" and z: "z < length bs" "bs ! z = NUL"
  define start where "start = unat sp + length (takeWhile (strchr ds) (drop (unat sp) bs))"
  define end' where "end' = start + scanned ds zp ec False None (drop start bs)"
  from cstr_tokenize_ex_scans[OF a, of ds zp ec, folded start_def, folded end'_def]
  obtain w' cur where
    run: "cstr_tokenize_ex obj token (Some ds) zp ec (Some sp) w
            = Some ((start < length bs, Some cur), w')"
    and el: "end' \<le> length bs"
    and c: "unat cur = (if end' < length bs then end' + 1 else length bs)"
    and t: "start < length bs \<longrightarrow> start < end'
              \<and> contents token w' = Some (c_chars (take (end' - start) (drop start bs)))"
    by blast
  show "\<exists>found cur w' start end'.
            cstr_tokenize_ex obj token (Some ds) zp ec (Some sp) w = Some ((found, Some cur), w')
            \<and> start = unat sp + length (takeWhile (strchr ds) (drop (unat sp) bs))
            \<and> end' = start + scanned ds zp ec False None (drop start bs)
            \<and> end' \<le> length bs
            \<and> found = (start < length bs)
            \<and> (found \<longrightarrow> start < end'
                  \<and> contents token w' = Some (c_chars (take (end' - start) (drop start bs))))
            \<and> unat cur = (if end' < length bs then end' + 1 else length bs)
            \<and> (unat sp \<le> z \<and> (\<forall>i. unat sp \<le> i \<and> i < z \<longrightarrow> strchr ds (bs ! i))
                  \<longrightarrow> z < start)
            \<and> (start \<le> z \<longrightarrow>
                  (case scanner_at ds zp ec False None (take (z - start) (drop start bs)) of
                     None \<Rightarrow> end' < z
                   | Some (armed, zone) \<Rightarrow>
                       if armed \<or> zone \<noteq> None then z < end'
                       else end' = z \<and> unat cur = z + 1))"
  proof (rule exI[of _ "start < length bs"], rule exI[of _ cur], rule exI[of _ w'],
      rule exI[of _ start], rule exI[of _ end'], intro conjI impI; (elim conjE)?)
    show "cstr_tokenize_ex obj token (Some ds) zp ec (Some sp) w
            = Some ((start < length bs, Some cur), w')" by (rule run)
    show "start = unat sp + length (takeWhile (strchr ds) (drop (unat sp) bs))"
      by (rule start_def)
    show "end' = start + scanned ds zp ec False None (drop start bs)" by (rule end'_def)
    show "end' \<le> length bs" by (rule el)
    show "(start < length bs) = (start < length bs)" by (rule refl)
    show "start < end'" if "start < length bs" using t that by simp
    show "contents token w' = Some (c_chars (take (end' - start) (drop start bs)))"
      if "start < length bs" using t that by simp
    show "unat cur = (if end' < length bs then end' + 1 else length bs)" by (rule c)
    show "z < start"
      if "unat sp \<le> z" "\<forall>i. unat sp \<le> i \<and> i < z \<longrightarrow> strchr ds (bs ! i)"
      unfolding start_def using that(1) z that(2) by (rule zero_in_front)
    show "case scanner_at ds zp ec False None (take (z - start) (drop start bs)) of
                     None \<Rightarrow> end' < z
                   | Some (armed, zone) \<Rightarrow>
                       if armed \<or> zone \<noteq> None then z < end'
                       else end' = z \<and> unat cur = z + 1"
      if sz: "start \<le> z"
      using scanner_at_byte[OF sz z(1), of ds zp ec, folded end'_def] z(2) strchr_NUL[of ds]
        c z(1)
      by (auto split: option.splits if_splits)
  qed
qed

text \<open>The eight bytes \<^verbatim>\<open>"x"a 00 b,c\<close> with the delimiter comma: the zero byte at offset 4
  stands behind a closed zone and ends the token of both tokenizers.\<close>

theorem tokenize_zero_byte_delimits_witness:
  "strchr '','' NUL
   \<and> (\<exists>found cur w'.
          cstr_tokenize 1 2 (Some '','') (Some 0) zero_buffer = Some ((found, Some cur), w')
          \<and> found \<and> unat cur = 5
          \<and> contents 2 w' = Some [CHR 0x22, CHR ''x'', CHR 0x22, CHR ''a''])
   \<and> (\<exists>found cur w'.
          cstr_tokenize_ex 1 2 (Some '','') (Some [CHR 0x22, CHR 0x22]) (Some [CHR 0x5C]) (Some 0)
             zero_buffer = Some ((found, Some cur), w')
          \<and> found \<and> unat cur = 5
          \<and> contents 2 w' = Some [CHR 0x22, CHR ''x'', CHR 0x22, CHR ''a''])"
proof -
  have wf: "well_formed 1 zero_buffer"
    by (simp add: well_formed_def zero_buffer_def)
  have ct: "contents 1 zero_buffer
              = Some [CHR 0x22, CHR ''x'', CHR 0x22, CHR ''a'', NUL, CHR ''b'', CHR '','', CHR ''c'']"
    by (simp add: contents_def load_cells_def zero_buffer_def)
  have plan: "alloc_plan zero_buffer = []" by (simp add: zero_buffer_def)
  show ?thesis
    using tokenize_zero_byte_delimits
      [where obj = 1 and token = 2 and w = zero_buffer
         and bs = "[CHR 0x22, CHR ''x'', CHR 0x22, CHR ''a'', NUL, CHR ''b'', CHR '','', CHR ''c'']"
         and sp = 0 and z = 4
         and ds = "'',''" and zp = "Some [CHR 0x22, CHR 0x22]" and ec = "Some [CHR 0x5C]"]
      wf ct plan
    by (auto simp: strchr_def c_chars_def opens_zone_def arms_escape_def)
qed

text \<open>
  The claim makes the zero byte a delimiter for \<^verbatim>\<open>cstr_tokenize_ex\<close> wherever it stands.
  In the seven bytes \<^verbatim>\<open>"a 00 b" c\<close>, with the delimiter space and the zone pair of
  double quotes, the zero byte at offset 2 is inside the zone: the scan runs over it
  to the space at offset 5 and leaves the cursor at 6; the token is cut to \<^verbatim>\<open>"a\<close>.
\<close>

theorem tokenize_ex_zero_in_zone_counterexample:
  "(do { (ok, w) \<leftarrow> cstr_create_from_buffer 1
                      (Some [CHR 0x22, CHR ''a'', NUL, CHR ''b'', CHR 0x22, CHR '' '', CHR ''c'']) 7
                      world0;
         ((found, cursor), w) \<leftarrow>
            cstr_tokenize_ex 1 2 (Some '' '') (Some [CHR 0x22, CHR 0x22]) (Some [CHR 0x5C])
              (Some 0) w;
         token \<leftarrow> contents 2 w;
         Some (found, cursor, token) })
     = Some (True, Some 6, [CHR 0x22, CHR ''a''])"
  by (simp add: runtime_defs cstr_create_from_buffer_def cstr_tokenize_ex_def emit_token_def
      cstr_create_from_chars_def ex_body_def skip_delims.simps ex_loop.simps Let_def)

end
